theory Spec2Isabelle
  imports Main "HOL-Library.Word" "HOL-Library.Monad_Syntax"
begin

unbundle bit_operations_syntax

section \<open>Bit-vector terms and formulas\<close>

text \<open>
  The univariate solver of polysat (\<^verbatim>\<open>univariate_solver.cpp\<close>) builds terms over one
  unknown \<^verbatim>\<open>x\<close> of a fixed width and hands them to a bit-vector decision procedure.
  The term builders (\<^verbatim>\<open>bv_util\<close>, \<^verbatim>\<open>ast_manager\<close>) are not part of the file; the terms
  they build are a datatype here, one constructor per builder the file calls
  (\<^verbatim>\<open>mk_numeral\<close>, the constant \<^verbatim>\<open>x\<close>, \<^verbatim>\<open>mk_bv_add\<close>, \<^verbatim>\<open>mk_bv_mul\<close>, \<^verbatim>\<open>mk_bv_shl\<close>,
  \<^verbatim>\<open>mk_bv_lshr\<close>, \<^verbatim>\<open>mk_bv_ashr\<close>, \<^verbatim>\<open>mk_bv_and\<close>, \<^verbatim>\<open>mk_bv_or\<close>, \<^verbatim>\<open>mk_bv_xor\<close>,
  \<^verbatim>\<open>mk_bv_not\<close>; and for formulas \<^verbatim>\<open>mk_ule\<close>, \<^verbatim>\<open>mk_bvumul_no_ovfl\<close>,
  \<^verbatim>\<open>mk_bvsmul_no_ovfl\<close>, \<^verbatim>\<open>mk_bvsmul_no_udfl\<close>, \<^verbatim>\<open>mk_eq\<close>, \<^verbatim>\<open>mk_bit2bool\<close>,
  \<^verbatim>\<open>mk_not\<close>).
\<close>

datatype expr =
    Bv_numeral int
  | Bv_x
  | Bv_add expr expr
  | Bv_mul expr expr
  | Bv_shl expr expr
  | Bv_lshr expr expr
  | Bv_ashr expr expr
  | Bv_and expr expr
  | Bv_or expr expr
  | Bv_xor expr expr
  | Bv_not expr

datatype formula =
    Bv_ule expr expr
  | Bvumul_no_ovfl expr expr
  | Bvsmul_no_ovfl expr expr
  | Bvsmul_no_udfl expr expr
  | Mk_eq expr expr
  | Bit2bool expr nat
  | Mk_not formula

text \<open>
  Modelled from the spec: the meaning of a term is not in the file (it is the
  decision procedure's); the spec fixes it as "all arithmetic/comparison semantics are
  exactly W-bit modular". \<open>to_signed W a\<close> reads a value of \<open>[0, 2^W)\<close> in two's
  complement; \<open>bv_val W v e\<close> is the value of \<open>e\<close> at width \<open>W\<close> when the unknown is
  \<open>v\<close>; \<open>holds W v f\<close> is the truth of the formula \<open>f\<close> there.
\<close>

definition to_signed :: "nat \<Rightarrow> int \<Rightarrow> int" where
  "to_signed W a = (if 2 ^ W \<le> 2 * a then a - 2 ^ W else a)"

fun bv_val :: "nat \<Rightarrow> int \<Rightarrow> expr \<Rightarrow> int" where
  "bv_val W v (Bv_numeral r) = r mod 2 ^ W"
| "bv_val W v Bv_x = v mod 2 ^ W"
| "bv_val W v (Bv_add a b) = (bv_val W v a + bv_val W v b) mod 2 ^ W"
| "bv_val W v (Bv_mul a b) = (bv_val W v a * bv_val W v b) mod 2 ^ W"
| "bv_val W v (Bv_shl a b) = (bv_val W v a * 2 ^ nat (bv_val W v b)) mod 2 ^ W"
| "bv_val W v (Bv_lshr a b) = bv_val W v a div 2 ^ nat (bv_val W v b)"
| "bv_val W v (Bv_ashr a b) =
     (to_signed W (bv_val W v a) div 2 ^ nat (bv_val W v b)) mod 2 ^ W"
| "bv_val W v (Bv_and a b) = (bv_val W v a AND bv_val W v b)"
| "bv_val W v (Bv_or a b) = (bv_val W v a OR bv_val W v b)"
| "bv_val W v (Bv_xor a b) = (bv_val W v a XOR bv_val W v b)"
| "bv_val W v (Bv_not a) = 2 ^ W - 1 - bv_val W v a"

fun holds :: "nat \<Rightarrow> int \<Rightarrow> formula \<Rightarrow> bool" where
  "holds W v (Bv_ule a b) = (bv_val W v a \<le> bv_val W v b)"
| "holds W v (Bvumul_no_ovfl a b) = (bv_val W v a * bv_val W v b < 2 ^ W)"
| "holds W v (Bvsmul_no_ovfl a b) =
     (2 * (to_signed W (bv_val W v a) * to_signed W (bv_val W v b)) < 2 ^ W)"
| "holds W v (Bvsmul_no_udfl a b) =
     (- (2 ^ W) \<le> 2 * (to_signed W (bv_val W v a) * to_signed W (bv_val W v b)))"
| "holds W v (Mk_eq a b) = (bv_val W v a = bv_val W v b)"
| "holds W v (Bit2bool a i) = bit (bv_val W v a) i"
| "holds W v (Mk_not f) = (\<not> holds W v f)"

section \<open>The polynomial encoder\<close>

text \<open>
  \<^verbatim>\<open>univariate\<close> is a vector of rationals, the coefficient of \<open>x^i\<close> at index \<open>i\<close>;
  the spec's data model has integer coefficients, so the model has \<open>int\<close>.
\<close>

type_synonym univariate = "int list"

text \<open>
  \<^verbatim>\<open>mk_numeral(r)\<close> is \<^verbatim>\<open>bv->mk_numeral(r, bit_width)\<close>. Modelled from the spec: the
  numeral builder is not in the file; a numeral of width \<open>W\<close> holds its value modulo
  \<open>2^W\<close> ("all values and arithmetic are implicitly modulo 2^W").
\<close>

definition mk_numeral :: "nat \<Rightarrow> int \<Rightarrow> expr" where
  "mk_numeral W r = Bv_numeral (r mod 2 ^ W)"

text \<open>
  Modelled from the spec: \<^verbatim>\<open>rational::is_power_of_two(pow)\<close> is not in the file. The
  spec: "the coefficient is an exact power of two (shift amount = log2 of the
  coefficient)". \<open>Some k\<close> is the answer true with \<open>pow = k\<close>, \<open>None\<close> the answer false.
\<close>

function is_power_of_two :: "int \<Rightarrow> nat option" where
  "is_power_of_two c =
     (if c \<le> 0 then None
      else if c = 1 then Some 0
      else if odd c then None
      else map_option Suc (is_power_of_two (c div 2)))"
  by pat_completeness auto
termination
  by (relation "measure nat") auto

declare is_power_of_two.simps [simp del]

text \<open>
  \<^verbatim>\<open>mk_poly_term\<close>, lines 117-123: a shift for a power of two, a multiplication
  otherwise. The shift amount \<^verbatim>\<open>rational(pow)\<close> goes through \<^verbatim>\<open>mk_numeral\<close>.
\<close>

definition mk_poly_term :: "nat \<Rightarrow> int \<Rightarrow> expr \<Rightarrow> expr" where
  "mk_poly_term W coeff xpow =
     (case is_power_of_two coeff of
        Some pow \<Rightarrow> Bv_shl xpow (mk_numeral W (int pow))
      | None \<Rightarrow> Bv_mul (mk_numeral W coeff) xpow)"

text \<open>
  The multiply-based encoding of a term, as the spec words it ("otherwise a genuine
  multiply is emitted"): the encoding \<^verbatim>\<open>mk_poly_term\<close> is compared with.
\<close>

definition mul_term_spec :: "nat \<Rightarrow> int \<Rightarrow> expr \<Rightarrow> expr" where
  "mul_term_spec W coeff xpow = Bv_mul (mk_numeral W coeff) xpow"

text \<open>
  \<^verbatim>\<open>mk_poly\<close>, lines 126-143. The loop over \<^verbatim>\<open>i = 1 .. p.size() - 1\<close> is the recursion
  \<open>mk_poly_loop\<close> over the coefficients \<^verbatim>\<open>p[i], p[i+1], ...\<close> still to come, with the
  loop's variables \<^verbatim>\<open>e\<close> and \<^verbatim>\<open>xpow\<close>; \<^verbatim>\<open>i + 1 < p.size()\<close> is "more coefficients
  follow".
\<close>

fun mk_poly_loop :: "nat \<Rightarrow> int list \<Rightarrow> expr \<Rightarrow> expr \<Rightarrow> expr" where
  "mk_poly_loop W [] e xpow = e"
| "mk_poly_loop W (c # cs) e xpow =
     mk_poly_loop W cs
       (if c \<noteq> 0 then Bv_add e (mk_poly_term W c xpow) else e)
       (if cs \<noteq> [] then Bv_mul xpow Bv_x else xpow)"

definition mk_poly :: "nat \<Rightarrow> univariate \<Rightarrow> expr" where
  "mk_poly W p =
     (case p of
        [] \<Rightarrow> mk_numeral W 0
      | c0 # cs \<Rightarrow> mk_poly_loop W cs (mk_numeral W c0) Bv_x)"

text \<open>The polynomial the spec reads a coefficient list as: \<open>c0 + c1*v + c2*v^2 + ...\<close>.\<close>

definition poly_value :: "univariate \<Rightarrow> int \<Rightarrow> int" where
  "poly_value p v = (\<Sum>i<length p. p ! i * v ^ i)"

section \<open>The decision procedure\<close>

datatype lbool = l_false | l_undef | l_true

text \<open>
  \<^verbatim>\<open>add\<close> names the tracking literal of an assertion by the numerical symbol
  \<^verbatim>\<open>symbol(dep)\<close>; the unknown is the constant named \<^verbatim>\<open>"x"\<close>. \<^verbatim>\<open>get_num\<close> reads the
  number of a numerical symbol back (it asserts that the symbol is numerical).
\<close>

datatype symbol = Numerical nat | Textual string

fun get_num :: "symbol \<Rightarrow> nat option" where
  "get_num (Numerical n) = Some n"
| "get_num (Textual str) = None"

type_synonym assertion = "formula \<times> symbol"

text \<open>
  Modelled from the spec: the decision procedure \<^verbatim>\<open>s\<close> is an external collaborator,
  "a generic incremental fixed-width bit-vector/boolean decision procedure exposing:
  assert-with-label(formula, label), push(), pop(n), check-sat() -> {sat,unsat,unknown},
  get-model() -> binding of the unknown's value, get-unsat-core() -> set of labels of an
  unsatisfiable subset". Its state is the assertions in force (most recent first), the
  checkpoints taken by push (innermost first), and the model and the core of the most
  recent check: \<^verbatim>\<open>model()\<close> has the precondition "most recent check() returned sat",
  so get-model answers from the most recent check, with no model when that check did
  not say sat. What the procedure answers is a parameter, the record
  \<open>decision_procedure\<close>: the verdict on a list of assertions at a width, the model it
  picks and the core it picks. The spec does not say what pop(n) does beyond the
  checkpoints taken; \<open>s_pop\<close> has no result there.
\<close>

record decision_procedure =
  verdict :: "nat \<Rightarrow> assertion list \<Rightarrow> lbool"
  pick_model :: "nat \<Rightarrow> assertion list \<Rightarrow> int"
  pick_core :: "nat \<Rightarrow> assertion list \<Rightarrow> symbol list"

record solver =
  asserted :: "assertion list"
  checkpoints :: "assertion list list"
  last_model :: "int option"
  last_core :: "symbol list"

definition s_assert_expr :: "formula \<Rightarrow> symbol \<Rightarrow> solver \<Rightarrow> solver" where
  "s_assert_expr e a st = st\<lparr>asserted := (e, a) # asserted st\<rparr>"

definition s_push :: "solver \<Rightarrow> solver" where
  "s_push st = st\<lparr>checkpoints := asserted st # checkpoints st\<rparr>"

definition s_pop :: "nat \<Rightarrow> solver \<Rightarrow> solver option" where
  "s_pop n st =
     (if n = 0 then Some st
      else if n \<le> length (checkpoints st)
      then Some (st\<lparr>asserted := checkpoints st ! (n - 1),
                     checkpoints := drop n (checkpoints st)\<rparr>)
      else None)"

definition s_check_sat :: "decision_procedure \<Rightarrow> nat \<Rightarrow> solver \<Rightarrow> lbool \<times> solver" where
  "s_check_sat D W st =
     (let r = verdict D W (asserted st)
      in (r, st\<lparr>last_model := (if r = l_true then Some (pick_model D W (asserted st)) else None),
                 last_core := (if r = l_false then pick_core D W (asserted st) else [])\<rparr>))"

definition s_get_model :: "solver \<Rightarrow> int option" where
  "s_get_model st = last_model st"

definition s_get_unsat_core :: "solver \<Rightarrow> symbol list" where
  "s_get_unsat_core st = last_core st"

section \<open>The univariate solver\<close>

text \<open>
  The class \<^verbatim>\<open>univariate_bitblast_solver\<close>: its decision procedure \<^verbatim>\<open>s\<close> (the field
  \<open>slv\<close>), \<^verbatim>\<open>bit_width\<close>, \<^verbatim>\<open>m_scope_level\<close> (an \<^verbatim>\<open>unsigned\<close>) and \<^verbatim>\<open>model_cache\<close>, a
  vector whose \<^verbatim>\<open>back()\<close> is the last element of the list. A result \<open>None\<close> is a
  failed \<^verbatim>\<open>SASSERT\<close> (\<^verbatim>\<open>back()\<close> and \<^verbatim>\<open>pop_back()\<close> of an empty vector assert too): the
  spec has them "fail loudly (assertion failure / fatal abort)".
\<close>

record univariate_bitblast_solver =
  slv :: solver
  bit_width :: nat
  m_scope_level :: "32 word"
  model_cache :: "int list"

definition mk_univariate_bitblast_solver :: "nat \<Rightarrow> univariate_bitblast_solver" where
  "mk_univariate_bitblast_solver W =
     \<lparr>slv = \<lparr>asserted = [], checkpoints = [], last_model = None, last_core = []\<rparr>,
      bit_width = W, m_scope_level = 0, model_cache = [- 1]\<rparr>"

definition reset_cache :: "univariate_bitblast_solver \<Rightarrow> univariate_bitblast_solver option" where
  "reset_cache u =
     (if model_cache u = [] then None
      else Some (u\<lparr>model_cache := (model_cache u)[length (model_cache u) - 1 := - 1]\<rparr>))"

definition push_cache :: "univariate_bitblast_solver \<Rightarrow> univariate_bitblast_solver option" where
  "push_cache u =
     (if model_cache u = [] then None
      else Some (u\<lparr>model_cache := model_cache u @ [last (model_cache u)]\<rparr>))"

definition pop_cache :: "univariate_bitblast_solver \<Rightarrow> univariate_bitblast_solver option" where
  "pop_cache u =
     (if model_cache u = [] then None
      else Some (u\<lparr>model_cache := butlast (model_cache u)\<rparr>))"

definition push :: "univariate_bitblast_solver \<Rightarrow> univariate_bitblast_solver option" where
  "push u = do {
     u1 \<leftarrow> push_cache (u\<lparr>m_scope_level := m_scope_level u + 1\<rparr>);
     Some (u1\<lparr>slv := s_push (slv u1)\<rparr>)
   }"

definition scope_level :: "univariate_bitblast_solver \<Rightarrow> 32 word" where
  "scope_level u = m_scope_level u"

definition pop :: "32 word \<Rightarrow> univariate_bitblast_solver \<Rightarrow> univariate_bitblast_solver option" where
  "pop n u =
     (if \<not> n \<le> scope_level u then None
      else do {
        u1 \<leftarrow> pop_cache (u\<lparr>m_scope_level := m_scope_level u - n\<rparr>);
        st \<leftarrow> s_pop (unat n) (slv u1);
        Some (u1\<lparr>slv := st\<rparr>)
      })"

text \<open>\<^verbatim>\<open>add\<close>, lines 146-153; \<^verbatim>\<open>dep_t\<close> is \<^verbatim>\<open>unsigned\<close>.\<close>

type_synonym dep_t = nat

definition add :: "formula \<Rightarrow> bool \<Rightarrow> dep_t \<Rightarrow> univariate_bitblast_solver
    \<Rightarrow> univariate_bitblast_solver option" where
  "add e sign dep u = do {
     u1 \<leftarrow> reset_cache u;
     Some (u1\<lparr>slv := s_assert_expr (if sign then Mk_not e else e) (Numerical dep) (slv u1)\<rparr>)
   }"

definition add_ule :: "univariate \<Rightarrow> univariate \<Rightarrow> bool \<Rightarrow> dep_t
    \<Rightarrow> univariate_bitblast_solver \<Rightarrow> univariate_bitblast_solver option" where
  "add_ule lhs rhs sign dep u =
     add (Bv_ule (mk_poly (bit_width u) lhs) (mk_poly (bit_width u) rhs)) sign dep u"

definition add_umul_ovfl :: "univariate \<Rightarrow> univariate \<Rightarrow> bool \<Rightarrow> dep_t
    \<Rightarrow> univariate_bitblast_solver \<Rightarrow> univariate_bitblast_solver option" where
  "add_umul_ovfl lhs rhs sign dep u =
     add (Bvumul_no_ovfl (mk_poly (bit_width u) lhs) (mk_poly (bit_width u) rhs)) (\<not> sign) dep u"

definition add_smul_ovfl :: "univariate \<Rightarrow> univariate \<Rightarrow> bool \<Rightarrow> dep_t
    \<Rightarrow> univariate_bitblast_solver \<Rightarrow> univariate_bitblast_solver option" where
  "add_smul_ovfl lhs rhs sign dep u =
     add (Bvsmul_no_ovfl (mk_poly (bit_width u) lhs) (mk_poly (bit_width u) rhs)) (\<not> sign) dep u"

definition add_smul_udfl :: "univariate \<Rightarrow> univariate \<Rightarrow> bool \<Rightarrow> dep_t
    \<Rightarrow> univariate_bitblast_solver \<Rightarrow> univariate_bitblast_solver option" where
  "add_smul_udfl lhs rhs sign dep u =
     add (Bvsmul_no_udfl (mk_poly (bit_width u) lhs) (mk_poly (bit_width u) rhs)) (\<not> sign) dep u"

definition add_lshr :: "univariate \<Rightarrow> univariate \<Rightarrow> univariate \<Rightarrow> bool \<Rightarrow> dep_t
    \<Rightarrow> univariate_bitblast_solver \<Rightarrow> univariate_bitblast_solver option" where
  "add_lshr in1 in2 out sign dep u =
     add (Mk_eq (Bv_lshr (mk_poly (bit_width u) in1) (mk_poly (bit_width u) in2))
                (mk_poly (bit_width u) out)) sign dep u"

definition add_ashr :: "univariate \<Rightarrow> univariate \<Rightarrow> univariate \<Rightarrow> bool \<Rightarrow> dep_t
    \<Rightarrow> univariate_bitblast_solver \<Rightarrow> univariate_bitblast_solver option" where
  "add_ashr in1 in2 out sign dep u =
     add (Mk_eq (Bv_ashr (mk_poly (bit_width u) in1) (mk_poly (bit_width u) in2))
                (mk_poly (bit_width u) out)) sign dep u"

definition add_shl :: "univariate \<Rightarrow> univariate \<Rightarrow> univariate \<Rightarrow> bool \<Rightarrow> dep_t
    \<Rightarrow> univariate_bitblast_solver \<Rightarrow> univariate_bitblast_solver option" where
  "add_shl in1 in2 out sign dep u =
     add (Mk_eq (Bv_shl (mk_poly (bit_width u) in1) (mk_poly (bit_width u) in2))
                (mk_poly (bit_width u) out)) sign dep u"

definition add_and :: "univariate \<Rightarrow> univariate \<Rightarrow> univariate \<Rightarrow> bool \<Rightarrow> dep_t
    \<Rightarrow> univariate_bitblast_solver \<Rightarrow> univariate_bitblast_solver option" where
  "add_and in1 in2 out sign dep u =
     add (Mk_eq (Bv_and (mk_poly (bit_width u) in1) (mk_poly (bit_width u) in2))
                (mk_poly (bit_width u) out)) sign dep u"

definition add_or :: "univariate \<Rightarrow> univariate \<Rightarrow> univariate \<Rightarrow> bool \<Rightarrow> dep_t
    \<Rightarrow> univariate_bitblast_solver \<Rightarrow> univariate_bitblast_solver option" where
  "add_or in1 in2 out sign dep u =
     add (Mk_eq (Bv_or (mk_poly (bit_width u) in1) (mk_poly (bit_width u) in2))
                (mk_poly (bit_width u) out)) sign dep u"

definition add_xor :: "univariate \<Rightarrow> univariate \<Rightarrow> univariate \<Rightarrow> bool \<Rightarrow> dep_t
    \<Rightarrow> univariate_bitblast_solver \<Rightarrow> univariate_bitblast_solver option" where
  "add_xor in1 in2 out sign dep u =
     add (Mk_eq (Bv_xor (mk_poly (bit_width u) in1) (mk_poly (bit_width u) in2))
                (mk_poly (bit_width u) out)) sign dep u"

definition add_not :: "univariate \<Rightarrow> univariate \<Rightarrow> bool \<Rightarrow> dep_t
    \<Rightarrow> univariate_bitblast_solver \<Rightarrow> univariate_bitblast_solver option" where
  "add_not inp out sign dep u =
     add (Mk_eq (Bv_not (mk_poly (bit_width u) inp)) (mk_poly (bit_width u) out)) sign dep u"

definition add_ule_const :: "int \<Rightarrow> bool \<Rightarrow> dep_t
    \<Rightarrow> univariate_bitblast_solver \<Rightarrow> univariate_bitblast_solver option" where
  "add_ule_const val sign dep u = add (Bv_ule Bv_x (mk_numeral (bit_width u) val)) sign dep u"

definition add_uge_const :: "int \<Rightarrow> bool \<Rightarrow> dep_t
    \<Rightarrow> univariate_bitblast_solver \<Rightarrow> univariate_bitblast_solver option" where
  "add_uge_const val sign dep u = add (Bv_ule (mk_numeral (bit_width u) val) Bv_x) sign dep u"

definition add_bit :: "nat \<Rightarrow> bool \<Rightarrow> dep_t
    \<Rightarrow> univariate_bitblast_solver \<Rightarrow> univariate_bitblast_solver option" where
  "add_bit idx sign dep u = add (Bit2bool Bv_x idx) sign dep u"

text \<open>
  Modelled from the spec: \<^verbatim>\<open>add_bit0\<close> and \<^verbatim>\<open>add_bit1\<close> are declared in the header,
  which is not among the sources. \<^verbatim>\<open>find_min\<close> and \<^verbatim>\<open>find_max\<close> call them where the spec
  says "force bit k to polarity 0" and "to polarity 1": the single-bit assertion,
  negated for 0.
\<close>

definition add_bit0 :: "nat \<Rightarrow> dep_t
    \<Rightarrow> univariate_bitblast_solver \<Rightarrow> univariate_bitblast_solver option" where
  "add_bit0 idx dep u = add_bit idx True dep u"

definition add_bit1 :: "nat \<Rightarrow> dep_t
    \<Rightarrow> univariate_bitblast_solver \<Rightarrow> univariate_bitblast_solver option" where
  "add_bit1 idx dep u = add_bit idx False dep u"

definition check :: "decision_procedure \<Rightarrow> univariate_bitblast_solver
    \<Rightarrow> lbool \<times> univariate_bitblast_solver" where
  "check D u = (let (r, st) = s_check_sat D (bit_width u) (slv u) in (r, u\<lparr>slv := st\<rparr>))"

text \<open>
  \<^verbatim>\<open>unsat_core\<close>, lines 215-224: the numbers of the core's symbols, in the core's
  order, and \<^verbatim>\<open>SASSERT(deps.size() > 0)\<close>.
\<close>

definition unsat_core :: "univariate_bitblast_solver \<Rightarrow> dep_t list option" where
  "unsat_core u = do {
     deps \<leftarrow> those (map get_num (s_get_unsat_core (slv u)));
     if 0 < length deps then Some deps else None
   }"

text \<open>
  \<^verbatim>\<open>model\<close>, lines 226-240: the cached value when it is not negative, else the value
  the decision procedure binds \<^verbatim>\<open>x\<close> to (\<^verbatim>\<open>SASSERT(model)\<close> when it has none), stored in
  the cache.
\<close>

definition model :: "univariate_bitblast_solver \<Rightarrow> (int \<times> univariate_bitblast_solver) option" where
  "model u =
     (if model_cache u = [] then None
      else if last (model_cache u) < 0 then
        (case s_get_model (slv u) of
           None \<Rightarrow> None
         | Some r \<Rightarrow> Some (r, u\<lparr>model_cache := (model_cache u)[length (model_cache u) - 1 := r]\<rparr>))
      else Some (last (model_cache u), u))"

text \<open>
  \<^verbatim>\<open>find_min\<close>, lines 242-269. The loop \<^verbatim>\<open>for (unsigned k = bit_width; k-- > 0; )\<close> is
  \<open>find_min_loop\<close>, by recursion on the number of bits still to visit: at \<open>Suc k\<close> the
  body runs for bit \<open>k\<close>. The result is the returned flag, the out-parameter \<^verbatim>\<open>val\<close>
  and the solver; \<^verbatim>\<open>return false\<close> inside the loop leaves the function at once.
  \<^verbatim>\<open>val.get_bit(k)\<close> is \<open>bit val k\<close>.
\<close>

fun find_min_loop :: "decision_procedure \<Rightarrow> nat \<Rightarrow> int \<Rightarrow> univariate_bitblast_solver
    \<Rightarrow> (bool \<times> int \<times> univariate_bitblast_solver) option" where
  "find_min_loop D 0 val u = Some (True, val, u)"
| "find_min_loop D (Suc k) val u =
     (if \<not> bit val k then do {
        u1 \<leftarrow> add_bit0 k 0 u;
        find_min_loop D k val u1
      }
      else do {
        u1 \<leftarrow> push u;
        u2 \<leftarrow> add_bit0 k 0 u1;
        (result, u3) \<leftarrow> Some (check D u2);
        (val', u4) \<leftarrow>
          (if result = l_true then do {
             (m, u') \<leftarrow> model u3;
             if m < val then Some (m, u') else None
           }
           else Some (val, u3));
        u5 \<leftarrow> pop 1 u4;
        if result = l_true then do {
          u6 \<leftarrow> add_bit0 k 0 u5;
          find_min_loop D k val' u6
        }
        else if result = l_false then do {
          u6 \<leftarrow> add_bit1 k 0 u5;
          find_min_loop D k val' u6
        }
        else Some (False, val', u5)
      })"

definition find_min :: "decision_procedure \<Rightarrow> univariate_bitblast_solver
    \<Rightarrow> (bool \<times> int \<times> univariate_bitblast_solver) option" where
  "find_min D u = do {
     (val, u1) \<leftarrow> model u;
     u2 \<leftarrow> push u1;
     (ok, val', u3) \<leftarrow> find_min_loop D (bit_width u2) val u2;
     if ok then do {
       u4 \<leftarrow> pop 1 u3;
       Some (True, val', u4)
     }
     else Some (False, val', u3)
   }"

text \<open>\<^verbatim>\<open>find_max\<close>, lines 271-298, the mirror image.\<close>

fun find_max_loop :: "decision_procedure \<Rightarrow> nat \<Rightarrow> int \<Rightarrow> univariate_bitblast_solver
    \<Rightarrow> (bool \<times> int \<times> univariate_bitblast_solver) option" where
  "find_max_loop D 0 val u = Some (True, val, u)"
| "find_max_loop D (Suc k) val u =
     (if bit val k then do {
        u1 \<leftarrow> add_bit1 k 0 u;
        find_max_loop D k val u1
      }
      else do {
        u1 \<leftarrow> push u;
        u2 \<leftarrow> add_bit1 k 0 u1;
        (result, u3) \<leftarrow> Some (check D u2);
        (val', u4) \<leftarrow>
          (if result = l_true then do {
             (m, u') \<leftarrow> model u3;
             if m > val then Some (m, u') else None
           }
           else Some (val, u3));
        u5 \<leftarrow> pop 1 u4;
        if result = l_true then do {
          u6 \<leftarrow> add_bit1 k 0 u5;
          find_max_loop D k val' u6
        }
        else if result = l_false then do {
          u6 \<leftarrow> add_bit0 k 0 u5;
          find_max_loop D k val' u6
        }
        else Some (False, val', u5)
      })"

definition find_max :: "decision_procedure \<Rightarrow> univariate_bitblast_solver
    \<Rightarrow> (bool \<times> int \<times> univariate_bitblast_solver) option" where
  "find_max D u = do {
     (val, u1) \<leftarrow> model u;
     u2 \<leftarrow> push u1;
     (ok, val', u3) \<leftarrow> find_max_loop D (bit_width u2) val u2;
     if ok then do {
       u4 \<leftarrow> pop 1 u3;
       Some (True, val', u4)
     }
     else Some (False, val', u3)
   }"

section \<open>Satisfaction, and decision procedures to run the solver with\<close>

text \<open>
  \<open>sat_all W as v\<close>: the value \<open>v\<close> of the unknown satisfies every assertion of \<open>as\<close>.
  \<open>labelled ls as\<close>: the assertions of \<open>as\<close> whose label is in \<open>ls\<close>.
\<close>

definition sat_all :: "nat \<Rightarrow> assertion list \<Rightarrow> int \<Rightarrow> bool" where
  "sat_all W as v = list_all (\<lambda>fa. holds W v (fst fa)) as"

definition labelled :: "symbol list \<Rightarrow> assertion list \<Rightarrow> assertion list" where
  "labelled ls as = filter (\<lambda>fa. snd fa \<in> set ls) as"

definition candidates :: "nat \<Rightarrow> int list" where
  "candidates W = map int [0..<2 ^ W]"

text \<open>
  What the spec asks of the collaborator: a verdict sat comes with a value of
  \<open>[0, 2^W)\<close> that satisfies the assertions; a verdict unsat means no value does, and
  comes with labels of assertions in force that are unsatisfiable together.
\<close>

definition sound_dp :: "decision_procedure \<Rightarrow> nat \<Rightarrow> bool" where
  "sound_dp D W =
     (\<forall>as.
        (verdict D W as = l_true \<longrightarrow>
           0 \<le> pick_model D W as \<and> pick_model D W as < 2 ^ W \<and> sat_all W as (pick_model D W as)) \<and>
        (verdict D W as = l_false \<longrightarrow>
           \<not> list_ex (sat_all W as) (candidates W) \<and>
           set (pick_core D W as) \<subseteq> snd ` set as \<and>
           \<not> list_ex (sat_all W (labelled (pick_core D W as) as)) (candidates W)))"

text \<open>
  A decision procedure by exhaustive search: the least satisfying value, and as core
  the labels of all assertions. \<open>bounded_dp n\<close> is the same procedure with a resource
  limit: it answers unknown beyond \<open>n\<close> assertions.
\<close>

definition brute_dp :: decision_procedure where
  "brute_dp =
     \<lparr>verdict = (\<lambda>W as. if find (sat_all W as) (candidates W) = None then l_false else l_true),
      pick_model = (\<lambda>W as. case find (sat_all W as) (candidates W) of Some v \<Rightarrow> v | None \<Rightarrow> 0),
      pick_core = (\<lambda>W as. map snd as)\<rparr>"

definition bounded_dp :: "nat \<Rightarrow> decision_procedure" where
  "bounded_dp n =
     \<lparr>verdict = (\<lambda>W as. if n < length as then l_undef else verdict brute_dp W as),
      pick_model = pick_model brute_dp,
      pick_core = pick_core brute_dp\<rparr>"

section \<open>Invariants used in the proofs\<close>

text \<open>
  \<open>same_frame u u'\<close>: the two solvers have the same checkpoints, scope level, width and
  number of cache frames.
\<close>

definition same_frame :: "univariate_bitblast_solver \<Rightarrow> univariate_bitblast_solver \<Rightarrow> bool" where
  "same_frame u u' \<longleftrightarrow>
     checkpoints (slv u') = checkpoints (slv u) \<and> m_scope_level u' = m_scope_level u \<and>
     bit_width u' = bit_width u \<and> length (model_cache u') = length (model_cache u)"

text \<open>
  For the bit-by-bit search, with \<open>A\<close> the assertions in force at entry and \<open>B\<close> those
  in force now: \<open>pinned\<close> says that \<open>B\<close> is \<open>A\<close> together with "the bits from \<open>k\<close>
  upwards are those of \<open>val\<close>"; \<open>lower_bound\<close> and \<open>upper_bound\<close> say that no value
  satisfying \<open>A\<close> is below (above) \<open>val\<close> on those bits.
\<close>

definition pinned :: "nat \<Rightarrow> assertion list \<Rightarrow> assertion list \<Rightarrow> nat \<Rightarrow> int \<Rightarrow> bool" where
  "pinned W A B k val \<longleftrightarrow>
     (\<forall>y. 0 \<le> y \<and> y < 2 ^ W \<longrightarrow>
        sat_all W B y = (sat_all W A y \<and> y div 2 ^ k = val div 2 ^ k))"

definition lower_bound :: "nat \<Rightarrow> assertion list \<Rightarrow> nat \<Rightarrow> int \<Rightarrow> bool" where
  "lower_bound W A k val \<longleftrightarrow>
     (\<forall>y. 0 \<le> y \<and> y < 2 ^ W \<and> sat_all W A y \<longrightarrow> val div 2 ^ k \<le> y div 2 ^ k)"

definition upper_bound :: "nat \<Rightarrow> assertion list \<Rightarrow> nat \<Rightarrow> int \<Rightarrow> bool" where
  "upper_bound W A k val \<longleftrightarrow>
     (\<forall>y. 0 \<le> y \<and> y < 2 ^ W \<and> sat_all W A y \<longrightarrow> y div 2 ^ k \<le> val div 2 ^ k)"

definition min_inv :: "nat \<Rightarrow> assertion list \<Rightarrow> nat \<Rightarrow> int \<Rightarrow> univariate_bitblast_solver \<Rightarrow> bool" where
  "min_inv W A k val u \<longleftrightarrow>
     bit_width u = W \<and> model_cache u \<noteq> [] \<and> 0 \<le> val \<and> val < 2 ^ W \<and> sat_all W A val \<and>
     pinned W A (asserted (slv u)) k val \<and> lower_bound W A k val"

definition max_inv :: "nat \<Rightarrow> assertion list \<Rightarrow> nat \<Rightarrow> int \<Rightarrow> univariate_bitblast_solver \<Rightarrow> bool" where
  "max_inv W A k val u \<longleftrightarrow>
     bit_width u = W \<and> model_cache u \<noteq> [] \<and> 0 \<le> val \<and> val < 2 ^ W \<and> sat_all W A val \<and>
     pinned W A (asserted (slv u)) k val \<and> upper_bound W A k val"

text \<open>
  \<open>decisive\<close>: the decision procedure never answers unknown. \<open>frames_ok\<close>: frame by
  frame, from the top, a valid cached value satisfies the assertions of its scope (the
  assertions in force for the top frame, the checkpoints for the others).
  \<open>model_current\<close>: the model the decision procedure holds satisfies the assertions in
  force.
\<close>

definition decisive :: "decision_procedure \<Rightarrow> nat \<Rightarrow> bool" where
  "decisive D W \<longleftrightarrow> (\<forall>as. verdict D W as \<noteq> l_undef)"

definition frames_ok :: "univariate_bitblast_solver \<Rightarrow> bool" where
  "frames_ok u \<longleftrightarrow>
     list_all2 (\<lambda>c as. 0 \<le> c \<longrightarrow> sat_all (bit_width u) as c)
       (rev (model_cache u)) (asserted (slv u) # checkpoints (slv u))"

definition model_current :: "univariate_bitblast_solver \<Rightarrow> bool" where
  "model_current u \<longleftrightarrow>
     (\<forall>m. last_model (slv u) = Some m \<longrightarrow> sat_all (bit_width u) (asserted (slv u)) m)"

section \<open>Properties of the polynomial encoder\<close>

lemma is_power_of_two_Some: "is_power_of_two c = Some k \<Longrightarrow> c = 2 ^ k"
proof (induction c arbitrary: k rule: is_power_of_two.induct)
  case (1 c)
  show ?case
  proof (cases "c \<le> 0 \<or> c = 1 \<or> odd c")
    case True
    with "1.prems" show ?thesis
      by (subst (asm) is_power_of_two.simps) (auto split: if_splits)
  next
    case False
    with "1.prems" obtain j where j: "is_power_of_two (c div 2) = Some j" and k: "k = Suc j"
      by (subst (asm) is_power_of_two.simps) (auto split: if_splits)
    from False j "1.IH" have "c div 2 = 2 ^ j" by simp
    with False k show ?thesis by auto
  qed
qed

lemma is_power_of_two_pow: "is_power_of_two (2 ^ k) = Some k"
proof (induction k)
  case 0
  show ?case by (subst is_power_of_two.simps) simp
next
  case (Suc k)
  have "even ((2::int) ^ Suc k)" by simp
  then have "(2::int) ^ Suc k \<noteq> 1" by (metis odd_one)
  then show ?case
    using Suc by (subst is_power_of_two.simps) simp
qed

lemma bv_val_mul_term_spec:
  "bv_val W v (mul_term_spec W c xpow) = (c * bv_val W v xpow) mod 2 ^ W"
  by (simp add: mul_term_spec_def mk_numeral_def mod_mult_left_eq)

text \<open>
  A coefficient below \<open>2^(2^W)\<close> (every coefficient already reduced modulo \<open>2^W\<close> is
  one) is encoded with its value: the shift amount then fits the width.
\<close>

lemma bv_val_mk_poly_term:
  assumes "c < 2 ^ (2 ^ W)"
  shows "bv_val W v (mk_poly_term W c xpow) = (c * bv_val W v xpow) mod 2 ^ W"
proof (cases "is_power_of_two c")
  case None
  then show ?thesis
    by (simp add: mk_poly_term_def mk_numeral_def mod_mult_left_eq)
next
  case (Some k)
  then have c: "c = 2 ^ k" by (rule is_power_of_two_Some)
  with assms have "k < 2 ^ W"
    by (simp add: power_strict_increasing_iff)
  then have "int k < 2 ^ W"
    by (metis of_nat_less_iff of_nat_numeral of_nat_power)
  then have "int k mod 2 ^ W = int k"
    by simp
  with Some c show ?thesis
    by (simp add: mk_poly_term_def mk_numeral_def mult.commute)
qed

lemma mk_poly_term_agrees_below:
  "c < 2 ^ (2 ^ W) \<Longrightarrow>
   bv_val W v (mk_poly_term W c xpow) = bv_val W v (mul_term_spec W c xpow)"
  by (simp add: bv_val_mk_poly_term bv_val_mul_term_spec)

lemma mk_poly_loop_value:
  assumes "\<forall>c\<in>set cs. c < 2 ^ (2 ^ W)"
    and "cs \<noteq> [] \<Longrightarrow> bv_val W v xpow = v ^ i mod 2 ^ W"
  shows "bv_val W v (mk_poly_loop W cs e xpow) mod 2 ^ W =
         (bv_val W v e + (\<Sum>j<length cs. cs ! j * v ^ (i + j))) mod 2 ^ W"
  using assms
proof (induction cs arbitrary: e xpow i)
  case Nil
  show ?case by simp
next
  case (Cons c cs)
  let ?e = "if c \<noteq> 0 then Bv_add e (mk_poly_term W c xpow) else e"
  let ?x = "if cs \<noteq> [] then Bv_mul xpow Bv_x else xpow"
  have xp: "bv_val W v xpow = v ^ i mod 2 ^ W"
    using Cons.prems(2) by simp
  have step: "cs \<noteq> [] \<Longrightarrow> bv_val W v ?x = v ^ Suc i mod 2 ^ W"
    by (simp add: xp mod_mult_eq mult.commute)
  have c: "c < 2 ^ (2 ^ W)" and cs: "\<forall>c\<in>set cs. c < 2 ^ (2 ^ W)"
    using Cons.prems(1) by simp_all
  have e: "bv_val W v ?e mod 2 ^ W = (bv_val W v e + c * v ^ i) mod 2 ^ W"
    by (simp add: bv_val_mk_poly_term[OF c] xp mod_simps)
  have "bv_val W v (mk_poly_loop W (c # cs) e xpow) mod 2 ^ W =
        bv_val W v (mk_poly_loop W cs ?e ?x) mod 2 ^ W"
    by simp
  also have "\<dots> = (bv_val W v ?e + (\<Sum>j<length cs. cs ! j * v ^ (Suc i + j))) mod 2 ^ W"
    using Cons.IH[OF cs step] by simp
  also have "\<dots> = (bv_val W v ?e mod 2 ^ W + (\<Sum>j<length cs. cs ! j * v ^ (Suc i + j))) mod 2 ^ W"
    by (simp add: mod_simps)
  also have "\<dots> = (bv_val W v e + c * v ^ i + (\<Sum>j<length cs. cs ! j * v ^ (Suc i + j))) mod 2 ^ W"
    by (simp only: e mod_add_left_eq)
  also have "bv_val W v e + c * v ^ i + (\<Sum>j<length cs. cs ! j * v ^ (Suc i + j)) =
             bv_val W v e + (\<Sum>j<length (c # cs). (c # cs) ! j * v ^ (i + j))"
    by (simp add: sum.lessThan_Suc_shift del: sum.lessThan_Suc)
  finally show ?case .
qed

lemma bv_val_mk_poly_mod: "bv_val W v (mk_poly W p) mod 2 ^ W = bv_val W v (mk_poly W p)"
proof (cases p)
  case Nil
  then show ?thesis by (simp add: mk_poly_def mk_numeral_def)
next
  case (Cons c0 cs)
  have "bv_val W v (mk_poly_loop W cs e xpow) mod 2 ^ W = bv_val W v (mk_poly_loop W cs e xpow)"
    if "bv_val W v e mod 2 ^ W = bv_val W v e" for e xpow
    using that by (induction cs arbitrary: e xpow) simp_all
  then show ?thesis
    using Cons by (simp add: mk_poly_def mk_numeral_def)
qed

text \<open>
  The encoder is right on every coefficient list whose coefficients are below
  \<open>2^(2^W)\<close>, for every value of the unknown; the empty list is the numeral 0.
\<close>

lemma mk_poly_reduced_coefficients:
  assumes "\<forall>c\<in>set p. c < 2 ^ (2 ^ W)"
  shows "bv_val W v (mk_poly W p) = poly_value p v mod 2 ^ W"
proof (cases p)
  case Nil
  then show ?thesis by (simp add: mk_poly_def mk_numeral_def poly_value_def)
next
  case (Cons c0 cs)
  have cs: "\<forall>c\<in>set cs. c < 2 ^ (2 ^ W)"
    using assms Cons by simp
  have x: "bv_val W v Bv_x = v ^ 1 mod 2 ^ W"
    by simp
  have "bv_val W v (mk_poly W p) = bv_val W v (mk_poly W p) mod 2 ^ W"
    by (simp add: bv_val_mk_poly_mod)
  also have "\<dots> = (bv_val W v (mk_numeral W c0) + (\<Sum>j<length cs. cs ! j * v ^ (1 + j))) mod 2 ^ W"
    using mk_poly_loop_value[OF cs x, of "mk_numeral W c0"] Cons by (simp add: mk_poly_def)
  also have "\<dots> = (c0 + (\<Sum>j<length cs. cs ! j * v ^ (1 + j))) mod 2 ^ W"
    by (simp add: mk_numeral_def mod_simps)
  also have "c0 + (\<Sum>j<length cs. cs ! j * v ^ (1 + j)) = poly_value p v"
    by (simp add: poly_value_def Cons sum.lessThan_Suc_shift del: sum.lessThan_Suc)
  finally show ?thesis .
qed

lemma mk_poly_empty: "mk_poly W [] = Bv_numeral 0"
  by (simp add: mk_poly_def mk_numeral_def)

text \<open>
  Claim C1. The claim: for every width \<open>W\<close>, every coefficient list and every \<open>v\<close> in
  \<open>[0, 2^W)\<close>, the term of \<^verbatim>\<open>mk_poly\<close> evaluates at \<open>x = v\<close> to the polynomial's value
  modulo \<open>2^W\<close>. The code differs at width 1 on the list \<open>[0, 4]\<close> and \<open>v = 1\<close>: the
  coefficient 4 is \<open>2^2\<close>, the shift amount 2 becomes the 1-bit numeral 0, the term is
  \<open>0 + (x << 0)\<close> and evaluates to 1, and \<open>(0 + 4 * 1) mod 2\<close> is 0.
\<close>

theorem mk_poly_wide_coefficient:
  "mk_poly 1 [0, 4] = Bv_add (Bv_numeral 0) (Bv_shl Bv_x (Bv_numeral 0)) \<and>
   bv_val 1 1 (mk_poly 1 [0, 4]) = 1 \<and>
   poly_value [0, 4] 1 mod 2 ^ 1 = 0"
  by (simp add: mk_poly_def mk_poly_term_def mk_numeral_def poly_value_def
      is_power_of_two.simps)

text \<open>
  Claim C8. The claim: for every coefficient \<open>2^k\<close> and every value of the unknown, the
  shift that \<^verbatim>\<open>mk_poly_term\<close> emits and the multiplication by \<open>2^k\<close> have the same
  value modulo \<open>2^W\<close>. The code differs at width 1, coefficient \<open>4 = 2^2\<close> and \<open>x = 1\<close>:
  the shift is by the 1-bit numeral \<open>2 mod 2 = 0\<close> and has the value 1, the
  multiplication has the value \<open>4 * 1 mod 2 = 0\<close>.
\<close>

theorem mk_poly_term_shift_truncated:
  "mk_poly_term 1 4 Bv_x = Bv_shl Bv_x (Bv_numeral 0) \<and>
   bv_val 1 1 (mk_poly_term 1 4 Bv_x) = 1 \<and>
   bv_val 1 1 (mul_term_spec 1 4 Bv_x) = 0"
  by (simp add: mk_poly_term_def mul_term_spec_def mk_numeral_def is_power_of_two.simps)

section \<open>The assertion manager and the scope stack\<close>

text \<open>What each operation does to the solver, field by field.\<close>

lemma add_Some:
  "add e sign dep u = Some u' \<longleftrightarrow>
     model_cache u \<noteq> [] \<and>
     u' = u\<lparr>model_cache := (model_cache u)[length (model_cache u) - 1 := - 1],
            slv := (slv u)\<lparr>asserted := (if sign then Mk_not e else e, Numerical dep) # asserted (slv u)\<rparr>\<rparr>"
  by (auto simp: add_def reset_cache_def s_assert_expr_def)

lemma push_Some:
  "push u = Some u' \<longleftrightarrow>
     model_cache u \<noteq> [] \<and>
     u' = u\<lparr>m_scope_level := m_scope_level u + 1,
            model_cache := model_cache u @ [last (model_cache u)],
            slv := (slv u)\<lparr>checkpoints := asserted (slv u) # checkpoints (slv u)\<rparr>\<rparr>"
  by (auto simp: push_def push_cache_def s_push_def)

lemma pop_effect:
  "pop n u = Some u' \<Longrightarrow>
     n \<le> m_scope_level u \<and> m_scope_level u' = m_scope_level u - n \<and>
     model_cache u \<noteq> [] \<and> model_cache u' = butlast (model_cache u) \<and>
     bit_width u' = bit_width u \<and> s_pop (unat n) (slv u) = Some (slv u')"
  by (auto simp: pop_def pop_cache_def scope_level_def split: if_splits Option.bind_splits)

lemma pop_1_Some:
  "pop 1 u = Some u' \<longleftrightarrow>
     1 \<le> m_scope_level u \<and> model_cache u \<noteq> [] \<and> checkpoints (slv u) \<noteq> [] \<and>
     u' = u\<lparr>m_scope_level := m_scope_level u - 1,
            model_cache := butlast (model_cache u),
            slv := (slv u)\<lparr>asserted := hd (checkpoints (slv u)),
                            checkpoints := tl (checkpoints (slv u))\<rparr>\<rparr>"
  by (cases "checkpoints (slv u)")
     (auto simp: pop_def pop_cache_def scope_level_def s_pop_def drop_Suc
           split: if_splits Option.bind_splits)

lemma check_eq:
  "check D u =
     (verdict D (bit_width u) (asserted (slv u)),
      u\<lparr>slv := (slv u)\<lparr>
         last_model := (if verdict D (bit_width u) (asserted (slv u)) = l_true
                        then Some (pick_model D (bit_width u) (asserted (slv u))) else None),
         last_core := (if verdict D (bit_width u) (asserted (slv u)) = l_false
                        then pick_core D (bit_width u) (asserted (slv u)) else [])\<rparr>\<rparr>)"
  by (simp add: check_def s_check_sat_def Let_def)

text \<open>
  Claim C9. For every sign flag and every pair of polynomials, \<^verbatim>\<open>add_umul_ovfl\<close>,
  \<^verbatim>\<open>add_smul_ovfl\<close> and \<^verbatim>\<open>add_smul_udfl\<close> assert the base predicate (no unsigned
  overflow, no signed overflow, no signed underflow of \<open>lhs * rhs\<close>) with the caller's
  sign inverted: the new assertion, labelled with the caller's dependency id, is the
  predicate itself when the flag is true and its negation when the flag is false.
\<close>

theorem mul_overflow_sign_inverted:
  "(add_umul_ovfl lhs rhs sign dep u = Some u1 \<longrightarrow>
      asserted (slv u1) =
        (if sign then Bvumul_no_ovfl (mk_poly (bit_width u) lhs) (mk_poly (bit_width u) rhs)
         else Mk_not (Bvumul_no_ovfl (mk_poly (bit_width u) lhs) (mk_poly (bit_width u) rhs)),
         Numerical dep) # asserted (slv u)) \<and>
   (add_smul_ovfl lhs rhs sign dep u = Some u2 \<longrightarrow>
      asserted (slv u2) =
        (if sign then Bvsmul_no_ovfl (mk_poly (bit_width u) lhs) (mk_poly (bit_width u) rhs)
         else Mk_not (Bvsmul_no_ovfl (mk_poly (bit_width u) lhs) (mk_poly (bit_width u) rhs)),
         Numerical dep) # asserted (slv u)) \<and>
   (add_smul_udfl lhs rhs sign dep u = Some u3 \<longrightarrow>
      asserted (slv u3) =
        (if sign then Bvsmul_no_udfl (mk_poly (bit_width u) lhs) (mk_poly (bit_width u) rhs)
         else Mk_not (Bvsmul_no_udfl (mk_poly (bit_width u) lhs) (mk_poly (bit_width u) rhs)),
         Numerical dep) # asserted (slv u))"
  by (simp add: add_umul_ovfl_def add_smul_ovfl_def add_smul_udfl_def add_Some)

theorem mul_overflow_sign_inverted_witness:
  "(\<exists>u1. add_umul_ovfl [0, 1] [3] False 7 (mk_univariate_bitblast_solver 4) = Some u1 \<and>
      asserted (slv u1) = [(Mk_not (Bvumul_no_ovfl (mk_poly 4 [0, 1]) (mk_poly 4 [3])), Numerical 7)]) \<and>
   (\<exists>u2. add_smul_ovfl [0, 1] [3] True 8 (mk_univariate_bitblast_solver 4) = Some u2 \<and>
      asserted (slv u2) = [(Bvsmul_no_ovfl (mk_poly 4 [0, 1]) (mk_poly 4 [3]), Numerical 8)]) \<and>
   (\<exists>u3. add_smul_udfl [0, 1] [3] False 9 (mk_univariate_bitblast_solver 4) = Some u3 \<and>
      asserted (slv u3) = [(Mk_not (Bvsmul_no_udfl (mk_poly 4 [0, 1]) (mk_poly 4 [3])), Numerical 9)])"
proof -
  let ?u = "mk_univariate_bitblast_solver 4"
  obtain u1 where u1: "add_umul_ovfl [0, 1] [3] False 7 ?u = Some u1"
    by (simp add: add_umul_ovfl_def add_Some mk_univariate_bitblast_solver_def)
  obtain u2 where u2: "add_smul_ovfl [0, 1] [3] True 8 ?u = Some u2"
    by (simp add: add_smul_ovfl_def add_Some mk_univariate_bitblast_solver_def)
  obtain u3 where u3: "add_smul_udfl [0, 1] [3] False 9 ?u = Some u3"
    by (simp add: add_smul_udfl_def add_Some mk_univariate_bitblast_solver_def)
  have "asserted (slv u1) = [(Mk_not (Bvumul_no_ovfl (mk_poly 4 [0, 1]) (mk_poly 4 [3])), Numerical 7)]"
    using mul_overflow_sign_inverted[of "[0, 1]" "[3]" False 7 ?u u1] u1
    by (simp add: mk_univariate_bitblast_solver_def)
  moreover have "asserted (slv u2) = [(Bvsmul_no_ovfl (mk_poly 4 [0, 1]) (mk_poly 4 [3]), Numerical 8)]"
    using mul_overflow_sign_inverted[of "[0, 1]" "[3]" True 8 ?u _ u2] u2
    by (simp add: mk_univariate_bitblast_solver_def)
  moreover have "asserted (slv u3) = [(Mk_not (Bvsmul_no_udfl (mk_poly 4 [0, 1]) (mk_poly 4 [3])), Numerical 9)]"
    using mul_overflow_sign_inverted[of "[0, 1]" "[3]" False 9 ?u _ _ u3] u3
    by (simp add: mk_univariate_bitblast_solver_def)
  ultimately show ?thesis
    using u1 u2 u3 by simp
qed

text \<open>
  Claim C10. \<^verbatim>\<open>push\<close> copies the cached value of the parent scope into the new frame:
  when the cache holds a valid (non-negative) value, \<^verbatim>\<open>model\<close> right after \<^verbatim>\<open>push\<close>
  returns the value \<^verbatim>\<open>model\<close> returned before it and leaves the solver as it is,
  whatever the state of the decision procedure, which it does not read.
\<close>

theorem push_copies_cached_value:
  assumes "model_cache u \<noteq> []" and "0 \<le> last (model_cache u)"
  shows "\<exists>u1. push u = Some u1 \<and>
           model_cache u1 = model_cache u @ [last (model_cache u)] \<and>
           model u = Some (last (model_cache u), u) \<and>
           (\<forall>st. model (u1\<lparr>slv := st\<rparr>) = Some (last (model_cache u), u1\<lparr>slv := st\<rparr>))"
  using assms by (simp add: push_Some model_def)

theorem push_copies_cached_value_witness:
  "\<exists>u u1. model (snd (check brute_dp (mk_univariate_bitblast_solver 4))) = Some (0, u) \<and>
     model_cache u = [0] \<and> push u = Some u1 \<and> model_cache u1 = [0, 0] \<and>
     model u1 = Some (0, u1) \<and>
     model (u1\<lparr>slv := \<lparr>asserted = [], checkpoints = [], last_model = None, last_core = []\<rparr>\<rparr>)
       = Some (0, u1\<lparr>slv := \<lparr>asserted = [], checkpoints = [], last_model = None, last_core = []\<rparr>\<rparr>)"
proof -
  let ?u = "\<lparr>slv = \<lparr>asserted = [], checkpoints = [], last_model = Some 0, last_core = []\<rparr>,
             bit_width = 4, m_scope_level = 0, model_cache = [0]\<rparr>"
  have u: "model (snd (check brute_dp (mk_univariate_bitblast_solver 4))) = Some (0, ?u)"
    by code_simp
  have "model_cache ?u \<noteq> []" and "0 \<le> last (model_cache ?u)"
    by simp_all
  from push_copies_cached_value[OF this] obtain u1 where
    "push ?u = Some u1" "model_cache u1 = [0, 0]"
    "\<forall>st. model (u1\<lparr>slv := st\<rparr>) = Some (0, u1\<lparr>slv := st\<rparr>)"
    by auto
  moreover from this(3) have "model (u1\<lparr>slv := slv u1\<rparr>) = Some (0, u1\<lparr>slv := slv u1\<rparr>)"
    by blast
  ultimately show ?thesis
    using u by (intro exI[of _ ?u] exI[of _ u1]) simp
qed

text \<open>
  Claim C3. The claim: \<^verbatim>\<open>pop(n)\<close> lowers the scope level by \<open>n\<close>, discards \<open>n\<close> cache
  frames and forwards \<^verbatim>\<open>pop(n)\<close>. The code calls \<^verbatim>\<open>pop_cache()\<close> once, whatever \<open>n\<close> is
  (\<open>pop_effect\<close>). At width 4: push, assert \<open>x \<ge> 5\<close>, check, model (5), push, and then
  \<^verbatim>\<open>pop(2)\<close>: the scope level is 0 again, and the cache still has two frames, with the
  value 5 of level 1 on top of the frame of level 0.
\<close>

theorem pop_two_discards_one_frame:
  "do {
     u \<leftarrow> push (mk_univariate_bitblast_solver 4);
     u \<leftarrow> add_uge_const 5 False 1 u;
     (m, u) \<leftarrow> model (snd (check brute_dp u));
     u \<leftarrow> push u;
     u \<leftarrow> pop 2 u;
     Some (scope_level u, model_cache u)
   } = Some (0, [- 1, 5])"
  by code_simp

section \<open>The extremal search: scopes and assertions\<close>

lemma same_frame_refl: "same_frame u u"
  by (simp add: same_frame_def)

lemma same_frame_trans: "same_frame u u1 \<Longrightarrow> same_frame u1 u2 \<Longrightarrow> same_frame u u2"
  by (simp add: same_frame_def)

lemma add_same_frame: "add e sign dep u = Some u' \<Longrightarrow> same_frame u u'"
  by (auto simp: add_Some same_frame_def)

lemma add_bit0_same_frame: "add_bit0 k dep u = Some u' \<Longrightarrow> same_frame u u'"
  by (simp add: add_bit0_def add_bit_def add_same_frame)

lemma add_bit1_same_frame: "add_bit1 k dep u = Some u' \<Longrightarrow> same_frame u u'"
  by (simp add: add_bit1_def add_bit_def add_same_frame)

lemma model_same_frame: "model u = Some (v, u') \<Longrightarrow> same_frame u u' \<and> slv u' = slv u"
  by (auto simp: model_def same_frame_def split: if_splits option.splits)

text \<open>One attempt of the search: push, assert, check, read the model, pop.\<close>

lemma attempt_same_frame:
  assumes "push u = Some u1" and "add e sign dep u1 = Some u2" and "check D u2 = (r, u3)"
    and "same_frame u3 u4" and "slv u4 = slv u3" and "pop 1 u4 = Some u5"
  shows "same_frame u u5 \<and> asserted (slv u5) = asserted (slv u)"
  using assms
  by (auto simp: push_Some add_Some check_eq pop_1_Some same_frame_def)

text \<open>The loop body at a bit that the search tries to improve, step by step.\<close>

lemma find_min_loop_SucE:
  assumes "find_min_loop D (Suc k) val u = Some res" and "bit val k"
  obtains u1 u2 r u3 val' u4 u5 where
    "push u = Some u1" and "add_bit0 k 0 u1 = Some u2" and "check D u2 = (r, u3)"
    and "(if r = l_true then do { (m, u') \<leftarrow> model u3; if m < val then Some (m, u') else None }
          else Some (val, u3)) = Some (val', u4)"
    and "pop 1 u4 = Some u5"
    and "(if r = l_true then do { u6 \<leftarrow> add_bit0 k 0 u5; find_min_loop D k val' u6 }
          else if r = l_false then do { u6 \<leftarrow> add_bit1 k 0 u5; find_min_loop D k val' u6 }
          else Some (False, val', u5)) = Some res"
proof -
  from assms obtain u1 where 1: "push u = Some u1" and
    r1: "do {
        u2 \<leftarrow> add_bit0 k 0 u1;
        (result, u3) \<leftarrow> Some (check D u2);
        (val', u4) \<leftarrow>
          (if result = l_true then do {
             (m, u') \<leftarrow> model u3;
             if m < val then Some (m, u') else None
           }
           else Some (val, u3));
        u5 \<leftarrow> pop 1 u4;
        if result = l_true then do {
          u6 \<leftarrow> add_bit0 k 0 u5;
          find_min_loop D k val' u6
        }
        else if result = l_false then do {
          u6 \<leftarrow> add_bit1 k 0 u5;
          find_min_loop D k val' u6
        }
        else Some (False, val', u5)
      } = Some res"
    by (simp add: bind_eq_Some_conv) blast
  from r1 obtain u2 where 2: "add_bit0 k 0 u1 = Some u2" and
    r2: "do {
        (result, u3) \<leftarrow> Some (check D u2);
        (val', u4) \<leftarrow>
          (if result = l_true then do {
             (m, u') \<leftarrow> model u3;
             if m < val then Some (m, u') else None
           }
           else Some (val, u3));
        u5 \<leftarrow> pop 1 u4;
        if result = l_true then do {
          u6 \<leftarrow> add_bit0 k 0 u5;
          find_min_loop D k val' u6
        }
        else if result = l_false then do {
          u6 \<leftarrow> add_bit1 k 0 u5;
          find_min_loop D k val' u6
        }
        else Some (False, val', u5)
      } = Some res"
    by (simp only: bind_eq_Some_conv) blast
  obtain r u3 where 3: "check D u2 = (r, u3)"
    by (cases "check D u2")
  from r2 3 obtain val' u4 where
    4: "(if r = l_true then do { (m, u') \<leftarrow> model u3; if m < val then Some (m, u') else None }
          else Some (val, u3)) = Some (val', u4)" and
    r4: "do {
        u5 \<leftarrow> pop 1 u4;
        if r = l_true then do {
          u6 \<leftarrow> add_bit0 k 0 u5;
          find_min_loop D k val' u6
        }
        else if r = l_false then do {
          u6 \<leftarrow> add_bit1 k 0 u5;
          find_min_loop D k val' u6
        }
        else Some (False, val', u5)
      } = Some res"
    by (simp add: bind_eq_Some_conv split_paired_Ex) blast
  from r4 obtain u5 where 5: "pop 1 u4 = Some u5" and
    6: "(if r = l_true then do { u6 \<leftarrow> add_bit0 k 0 u5; find_min_loop D k val' u6 }
          else if r = l_false then do { u6 \<leftarrow> add_bit1 k 0 u5; find_min_loop D k val' u6 }
          else Some (False, val', u5)) = Some res"
    by (simp only: bind_eq_Some_conv) blast
  from 1 2 3 4 5 6 show thesis
    by (rule that)
qed

lemma find_max_loop_SucE:
  assumes "find_max_loop D (Suc k) val u = Some res" and "\<not> bit val k"
  obtains u1 u2 r u3 val' u4 u5 where
    "push u = Some u1" and "add_bit1 k 0 u1 = Some u2" and "check D u2 = (r, u3)"
    and "(if r = l_true then do { (m, u') \<leftarrow> model u3; if m > val then Some (m, u') else None }
          else Some (val, u3)) = Some (val', u4)"
    and "pop 1 u4 = Some u5"
    and "(if r = l_true then do { u6 \<leftarrow> add_bit1 k 0 u5; find_max_loop D k val' u6 }
          else if r = l_false then do { u6 \<leftarrow> add_bit0 k 0 u5; find_max_loop D k val' u6 }
          else Some (False, val', u5)) = Some res"
proof -
  from assms obtain u1 where 1: "push u = Some u1" and
    r1: "do {
        u2 \<leftarrow> add_bit1 k 0 u1;
        (result, u3) \<leftarrow> Some (check D u2);
        (val', u4) \<leftarrow>
          (if result = l_true then do {
             (m, u') \<leftarrow> model u3;
             if m > val then Some (m, u') else None
           }
           else Some (val, u3));
        u5 \<leftarrow> pop 1 u4;
        if result = l_true then do {
          u6 \<leftarrow> add_bit1 k 0 u5;
          find_max_loop D k val' u6
        }
        else if result = l_false then do {
          u6 \<leftarrow> add_bit0 k 0 u5;
          find_max_loop D k val' u6
        }
        else Some (False, val', u5)
      } = Some res"
    by (simp add: bind_eq_Some_conv) blast
  from r1 obtain u2 where 2: "add_bit1 k 0 u1 = Some u2" and
    r2: "do {
        (result, u3) \<leftarrow> Some (check D u2);
        (val', u4) \<leftarrow>
          (if result = l_true then do {
             (m, u') \<leftarrow> model u3;
             if m > val then Some (m, u') else None
           }
           else Some (val, u3));
        u5 \<leftarrow> pop 1 u4;
        if result = l_true then do {
          u6 \<leftarrow> add_bit1 k 0 u5;
          find_max_loop D k val' u6
        }
        else if result = l_false then do {
          u6 \<leftarrow> add_bit0 k 0 u5;
          find_max_loop D k val' u6
        }
        else Some (False, val', u5)
      } = Some res"
    by (simp only: bind_eq_Some_conv) blast
  obtain r u3 where 3: "check D u2 = (r, u3)"
    by (cases "check D u2")
  from r2 3 obtain val' u4 where
    4: "(if r = l_true then do { (m, u') \<leftarrow> model u3; if m > val then Some (m, u') else None }
          else Some (val, u3)) = Some (val', u4)" and
    r4: "do {
        u5 \<leftarrow> pop 1 u4;
        if r = l_true then do {
          u6 \<leftarrow> add_bit1 k 0 u5;
          find_max_loop D k val' u6
        }
        else if r = l_false then do {
          u6 \<leftarrow> add_bit0 k 0 u5;
          find_max_loop D k val' u6
        }
        else Some (False, val', u5)
      } = Some res"
    by (simp add: bind_eq_Some_conv split_paired_Ex) blast
  from r4 obtain u5 where 5: "pop 1 u4 = Some u5" and
    6: "(if r = l_true then do { u6 \<leftarrow> add_bit1 k 0 u5; find_max_loop D k val' u6 }
          else if r = l_false then do { u6 \<leftarrow> add_bit0 k 0 u5; find_max_loop D k val' u6 }
          else Some (False, val', u5)) = Some res"
    by (simp only: bind_eq_Some_conv) blast
  from 1 2 3 4 5 6 show thesis
    by (rule that)
qed

lemma find_min_loop_frame:
  "find_min_loop D k val u = Some (ok, v, u') \<Longrightarrow> same_frame u u'"
proof (induction k arbitrary: val u)
  case 0
  then show ?case by (simp add: same_frame_refl)
next
  case (Suc k)
  show ?case
  proof (cases "bit val k")
    case False
    with Suc.prems obtain u1 where a: "add_bit0 k 0 u = Some u1"
      and l: "find_min_loop D k val u1 = Some (ok, v, u')"
      by (auto split: Option.bind_splits)
    from add_bit0_same_frame[OF a] Suc.IH[OF l] show ?thesis
      by (rule same_frame_trans)
  next
    case True
    from Suc.prems True obtain u1 u2 r u3 val' u4 u5 where
      p: "push u = Some u1" and a: "add_bit0 k 0 u1 = Some u2" and c: "check D u2 = (r, u3)"
      and m: "(if r = l_true then do { (m, u') \<leftarrow> model u3; if m < val then Some (m, u') else None }
               else Some (val, u3)) = Some (val', u4)"
      and q: "pop 1 u4 = Some u5"
      and rest: "(if r = l_true then do { u6 \<leftarrow> add_bit0 k 0 u5; find_min_loop D k val' u6 }
                  else if r = l_false then do { u6 \<leftarrow> add_bit1 k 0 u5; find_min_loop D k val' u6 }
                  else Some (False, val', u5)) = Some (ok, v, u')"
      by (rule find_min_loop_SucE)
    from m have f34: "same_frame u3 u4 \<and> slv u4 = slv u3"
      by (auto simp: same_frame_refl dest: model_same_frame split: if_splits Option.bind_splits)
    from a have a': "add (Bit2bool Bv_x k) True 0 u1 = Some u2"
      by (simp add: add_bit0_def add_bit_def)
    from attempt_same_frame[OF p a' c _ _ q] f34 have f5: "same_frame u u5"
      by simp
    from rest have "same_frame u5 u'"
      by (auto simp: same_frame_refl split: if_splits Option.bind_splits
               dest: add_bit0_same_frame add_bit1_same_frame Suc.IH same_frame_trans)
    with f5 show ?thesis
      by (rule same_frame_trans)
  qed
qed

lemma find_max_loop_frame:
  "find_max_loop D k val u = Some (ok, v, u') \<Longrightarrow> same_frame u u'"
proof (induction k arbitrary: val u)
  case 0
  then show ?case by (simp add: same_frame_refl)
next
  case (Suc k)
  show ?case
  proof (cases "bit val k")
    case True
    with Suc.prems obtain u1 where a: "add_bit1 k 0 u = Some u1"
      and l: "find_max_loop D k val u1 = Some (ok, v, u')"
      by (auto split: Option.bind_splits)
    from add_bit1_same_frame[OF a] Suc.IH[OF l] show ?thesis
      by (rule same_frame_trans)
  next
    case False
    from Suc.prems False obtain u1 u2 r u3 val' u4 u5 where
      p: "push u = Some u1" and a: "add_bit1 k 0 u1 = Some u2" and c: "check D u2 = (r, u3)"
      and m: "(if r = l_true then do { (m, u') \<leftarrow> model u3; if m > val then Some (m, u') else None }
               else Some (val, u3)) = Some (val', u4)"
      and q: "pop 1 u4 = Some u5"
      and rest: "(if r = l_true then do { u6 \<leftarrow> add_bit1 k 0 u5; find_max_loop D k val' u6 }
                  else if r = l_false then do { u6 \<leftarrow> add_bit0 k 0 u5; find_max_loop D k val' u6 }
                  else Some (False, val', u5)) = Some (ok, v, u')"
      by (rule find_max_loop_SucE)
    from m have f34: "same_frame u3 u4 \<and> slv u4 = slv u3"
      by (auto simp: same_frame_refl dest: model_same_frame split: if_splits Option.bind_splits)
    from a have a': "add (Bit2bool Bv_x k) False 0 u1 = Some u2"
      by (simp add: add_bit1_def add_bit_def)
    from attempt_same_frame[OF p a' c _ _ q] f34 have f5: "same_frame u u5"
      by simp
    from rest have "same_frame u5 u'"
      by (auto simp: same_frame_refl split: if_splits Option.bind_splits
               dest: add_bit0_same_frame add_bit1_same_frame Suc.IH same_frame_trans)
    with f5 show ?thesis
      by (rule same_frame_trans)
  qed
qed

lemma find_min_E:
  assumes "find_min D u = Some (ok, v, u')"
  obtains v0 u1 u2 u3 where "model u = Some (v0, u1)" and "push u1 = Some u2"
    and "find_min_loop D (bit_width u2) v0 u2 = Some (ok, v, u3)"
    and "if ok then pop 1 u3 = Some u' else u' = u3"
  using assms
  by (auto simp: find_min_def split: Option.bind_splits if_splits)

lemma find_max_E:
  assumes "find_max D u = Some (ok, v, u')"
  obtains v0 u1 u2 u3 where "model u = Some (v0, u1)" and "push u1 = Some u2"
    and "find_max_loop D (bit_width u2) v0 u2 = Some (ok, v, u3)"
    and "if ok then pop 1 u3 = Some u' else u' = u3"
  using assms
  by (auto simp: find_max_def split: Option.bind_splits if_splits)

text \<open>
  Claim C6. The claim: after a successful \<^verbatim>\<open>find_min\<close> or \<^verbatim>\<open>find_max\<close> the single-bit
  assertions forced during the search remain in the constraint set at the entry scope,
  pinning the unknown to the extremal value. At width 4 with \<open>x \<le> 10\<close>: \<^verbatim>\<open>find_max\<close>
  succeeds with 10, and the assertions in force afterwards are \<open>x \<le> 10\<close> alone, as at
  entry; the value 3 satisfies them, so the unknown is not pinned.
\<close>

theorem find_max_discards_bit_assertions:
  "do {
     u \<leftarrow> add_ule_const 10 False 1 (mk_univariate_bitblast_solver 4);
     (r, u) \<leftarrow> Some (check brute_dp u);
     (ok, val, u') \<leftarrow> find_max brute_dp u;
     Some (r, ok, val, asserted (slv u), asserted (slv u'), sat_all 4 (asserted (slv u')) 3)
   } = Some (l_true, True, 10,
             [(Bv_ule Bv_x (Bv_numeral 10), Numerical 1)],
             [(Bv_ule Bv_x (Bv_numeral 10), Numerical 1)], True)"
  by code_simp

text \<open>
  Claim C6, as amended. The search runs inside a scope of its own (\<^verbatim>\<open>push\<close> at entry,
  \<^verbatim>\<open>pop(1)\<close> at the end): after a successful \<^verbatim>\<open>find_min\<close> or \<^verbatim>\<open>find_max\<close> the single-bit
  assertions are discarded, and the assertions in force, the checkpoints of the
  decision procedure and the scope level are those at entry.
\<close>

theorem find_min_max_restores_assertions:
  "(find_min D u = Some (True, v, u') \<longrightarrow>
      asserted (slv u') = asserted (slv u) \<and> checkpoints (slv u') = checkpoints (slv u) \<and>
      scope_level u' = scope_level u) \<and>
   (find_max D u = Some (True, v, u') \<longrightarrow>
      asserted (slv u') = asserted (slv u) \<and> checkpoints (slv u') = checkpoints (slv u) \<and>
      scope_level u' = scope_level u)"
proof (intro conjI impI)
  have *: "asserted (slv u') = asserted (slv u) \<and> checkpoints (slv u') = checkpoints (slv u) \<and>
      scope_level u' = scope_level u"
    if m: "model u = Some (v0, u1)" and p: "push u1 = Some u2" and f: "same_frame u2 u3"
      and q: "pop 1 u3 = Some u'" for v0 u1 u2 u3
  proof -
    from model_same_frame[OF m] have "same_frame u u1" "slv u1 = slv u"
      by simp_all
    with p f q show ?thesis
      by (auto simp: push_Some pop_1_Some same_frame_def scope_level_def)
  qed
  show "asserted (slv u') = asserted (slv u)" "checkpoints (slv u') = checkpoints (slv u)"
    "scope_level u' = scope_level u" if "find_min D u = Some (True, v, u')"
    using that by (auto elim!: find_min_E dest!: find_min_loop_frame dest: *)
  show "asserted (slv u') = asserted (slv u)" "checkpoints (slv u') = checkpoints (slv u)"
    "scope_level u' = scope_level u" if "find_max D u = Some (True, v, u')"
    using that by (auto elim!: find_max_E dest!: find_max_loop_frame dest: *)
qed

theorem find_min_max_restores_assertions_witness:
  "\<exists>u u1 u2.
      do { u0 \<leftarrow> add_uge_const 5 False 1 (mk_univariate_bitblast_solver 4);
           u0 \<leftarrow> push u0;
           u0 \<leftarrow> add_ule_const 10 False 2 u0;
           Some (check brute_dp u0) } = Some (l_true, u) \<and>
      find_min brute_dp u = Some (True, 5, u1) \<and>
      find_max brute_dp u = Some (True, 10, u2) \<and>
      asserted (slv u1) = asserted (slv u) \<and> checkpoints (slv u1) = checkpoints (slv u) \<and>
      scope_level u1 = scope_level u \<and>
      asserted (slv u2) = asserted (slv u) \<and> checkpoints (slv u2) = checkpoints (slv u) \<and>
      scope_level u2 = scope_level u"
proof -
  let ?A = "[(Bv_ule Bv_x (Bv_numeral 10), Numerical 2), (Bv_ule (Bv_numeral 5) Bv_x, Numerical 1)]"
  let ?C = "[[(Bv_ule (Bv_numeral 5) Bv_x, Numerical 1)]]"
  let ?u = "\<lparr>slv = \<lparr>asserted = ?A, checkpoints = ?C, last_model = Some 5, last_core = []\<rparr>,
             bit_width = 4, m_scope_level = 1, model_cache = [- 1, - 1]\<rparr>"
  let ?r = "\<lparr>slv = \<lparr>asserted = ?A, checkpoints = ?C, last_model = None,
                    last_core = [Numerical 0, Numerical 0, Numerical 0, Numerical 0,
                                 Numerical 2, Numerical 1]\<rparr>,
             bit_width = 4, m_scope_level = 1, model_cache = [- 1, 5]\<rparr>"
  have fmin: "find_min brute_dp ?u = Some (True, 5, ?r)"
    by code_simp
  have fmax: "find_max brute_dp ?u = Some (True, 10, ?r)"
    by code_simp
  have c: "do { u0 \<leftarrow> add_uge_const 5 False 1 (mk_univariate_bitblast_solver 4);
           u0 \<leftarrow> push u0;
           u0 \<leftarrow> add_ule_const 10 False 2 u0;
           Some (check brute_dp u0) } = Some (l_true, ?u)"
    by code_simp
  from find_min_max_restores_assertions[of brute_dp ?u 5 ?r] fmin
  have 1: "asserted (slv ?r) = asserted (slv ?u)" "checkpoints (slv ?r) = checkpoints (slv ?u)"
    "scope_level ?r = scope_level ?u"
    by simp_all
  from find_min_max_restores_assertions[of brute_dp ?u 10 ?r] fmax
  have 2: "asserted (slv ?r) = asserted (slv ?u)" "checkpoints (slv ?r) = checkpoints (slv ?u)"
    "scope_level ?r = scope_level ?u"
    by simp_all
  from c fmin fmax 1 2 show ?thesis
    by (intro exI[of _ ?u] exI[of _ ?r]) simp
qed

lemma find_min_max_abort_scope:
  "(find_min D u = Some (False, v, u') \<longrightarrow> scope_level u' = scope_level u + 1) \<and>
   (find_max D u = Some (False, v, u') \<longrightarrow> scope_level u' = scope_level u + 1)"
proof -
  have *: "scope_level u3 = scope_level u + 1"
    if m: "model u = Some (v0, u1)" and p: "push u1 = Some u2" and f: "same_frame u2 u3"
    for v0 u1 u2 u3
    using model_same_frame[OF m] p f
    by (auto simp: push_Some same_frame_def scope_level_def)
  show ?thesis
    by (auto elim!: find_min_E find_max_E dest!: find_min_loop_frame find_max_loop_frame dest: *)
qed

text \<open>
  Claim C5. The claim: \<^verbatim>\<open>find_min\<close> and \<^verbatim>\<open>find_max\<close> return at the scope level they were
  entered at, also when an inner check is inconclusive. The code returns false from
  inside the loop without closing the scope opened at entry (\<open>find_min_max_abort_scope\<close>:
  the level is one higher). At width 1, with a decision procedure that gives up beyond
  one assertion: after \<open>x \<ge> 1\<close> (resp. \<open>x \<le> 0\<close>) and a check that says sat at level 0,
  the search returns false at level 1.
\<close>

theorem find_min_max_abort_leaves_scope:
  "do {
     u \<leftarrow> add_uge_const 1 False 1 (mk_univariate_bitblast_solver 1);
     (r, u) \<leftarrow> Some (check (bounded_dp 1) u);
     (ok, val, u') \<leftarrow> find_min (bounded_dp 1) u;
     Some (r, scope_level u, ok, scope_level u')
   } = Some (l_true, 0, False, 1) \<and>
   do {
     u \<leftarrow> add_ule_const 0 False 1 (mk_univariate_bitblast_solver 1);
     (r, u) \<leftarrow> Some (check (bounded_dp 1) u);
     (ok, val, u') \<leftarrow> find_max (bounded_dp 1) u;
     Some (r, scope_level u, ok, scope_level u')
   } = Some (l_true, 0, False, 1)"
  by code_simp

section \<open>The extremal search: the value found\<close>

lemma add_bit0_Some:
  "add_bit0 k dep u = Some u' \<longleftrightarrow>
     model_cache u \<noteq> [] \<and>
     u' = u\<lparr>model_cache := (model_cache u)[length (model_cache u) - 1 := - 1],
            slv := (slv u)\<lparr>asserted := (Mk_not (Bit2bool Bv_x k), Numerical dep) # asserted (slv u)\<rparr>\<rparr>"
  by (simp add: add_bit0_def add_bit_def add_Some)

lemma add_bit1_Some:
  "add_bit1 k dep u = Some u' \<longleftrightarrow>
     model_cache u \<noteq> [] \<and>
     u' = u\<lparr>model_cache := (model_cache u)[length (model_cache u) - 1 := - 1],
            slv := (slv u)\<lparr>asserted := (Bit2bool Bv_x k, Numerical dep) # asserted (slv u)\<rparr>\<rparr>"
  by (simp add: add_bit1_def add_bit_def add_Some)

lemma sat_all_Cons: "sat_all W ((f, a) # as) y \<longleftrightarrow> holds W y f \<and> sat_all W as y"
  by (simp add: sat_all_def)

lemma set_candidates: "set (candidates W) = {y. 0 \<le> y \<and> y < 2 ^ W}"
proof -
  have "y \<in> int ` {0..<2 ^ W} \<longleftrightarrow> 0 \<le> y \<and> y < 2 ^ W" for y
  proof
    assume "y \<in> int ` {0..<2 ^ W}"
    then obtain n where "y = int n" "n < 2 ^ W" by auto
    then show "0 \<le> y \<and> y < 2 ^ W"
      by (metis of_nat_0_le_iff of_nat_less_iff of_nat_numeral of_nat_power)
  next
    assume a: "0 \<le> y \<and> y < 2 ^ W"
    then have "int (nat y) < 2 ^ W" by simp
    then have "nat y < 2 ^ W"
      by (metis of_nat_less_iff of_nat_numeral of_nat_power)
    with a show "y \<in> int ` {0..<2 ^ W}"
      by (intro image_eqI[of _ _ "nat y"]) simp_all
  qed
  then show ?thesis
    by (auto simp: candidates_def)
qed

lemma sound_dp_sat:
  "sound_dp D W \<Longrightarrow> verdict D W as = l_true \<Longrightarrow>
     0 \<le> pick_model D W as \<and> pick_model D W as < 2 ^ W \<and> sat_all W as (pick_model D W as)"
  by (simp add: sound_dp_def)

lemma sound_dp_unsat:
  "sound_dp D W \<Longrightarrow> verdict D W as = l_false \<Longrightarrow> 0 \<le> y \<Longrightarrow> y < 2 ^ W \<Longrightarrow> \<not> sat_all W as y"
  by (auto simp: sound_dp_def list_ex_iff set_candidates)

lemma half_parity: "(a::int) = 2 * (a div 2) + (if odd a then 1 else 0)"
  by presburger

lemma div_pow_Suc_bit:
  "(y::int) div 2 ^ k = 2 * (y div 2 ^ Suc k) + (if bit y k then 1 else 0)"
proof -
  have "y div 2 ^ Suc k = y div (2 ^ k * 2)"
    by (simp add: mult.commute)
  also have "\<dots> = (y div 2 ^ k) div 2"
    by (rule zdiv_zmult2_eq) simp
  finally have "y div 2 ^ Suc k = (y div 2 ^ k) div 2" .
  moreover have "bit y k = odd (y div 2 ^ k)"
    by (rule bit_iff_odd)
  ultimately show ?thesis
    using half_parity[of "y div 2 ^ k"] by simp
qed

lemma div_pow_less: "(m::int) div 2 ^ k < v div 2 ^ k \<Longrightarrow> m < v"
  by (meson not_less zdiv_mono1 zero_less_numeral zero_less_power)

lemma pinned_start: "0 \<le> val \<Longrightarrow> val < 2 ^ W \<Longrightarrow> pinned W A A W val"
  by (simp add: pinned_def)

lemma lower_bound_start: "0 \<le> val \<Longrightarrow> val < 2 ^ W \<Longrightarrow> lower_bound W A W val"
  by (simp add: lower_bound_def)

lemma upper_bound_start: "0 \<le> val \<Longrightarrow> val < 2 ^ W \<Longrightarrow> upper_bound W A W val"
  by (simp add: upper_bound_def)

lemma pinned_bit0:
  assumes "pinned W A B (Suc k) val" and "\<not> bit val k"
  shows "pinned W A ((Mk_not (Bit2bool Bv_x k), a) # B) k val"
  unfolding pinned_def
proof (intro allI impI)
  fix y :: int
  assume y: "0 \<le> y \<and> y < 2 ^ W"
  with assms(1) have "sat_all W B y = (sat_all W A y \<and> y div 2 ^ Suc k = val div 2 ^ Suc k)"
    by (simp add: pinned_def)
  moreover from y have "holds W y (Mk_not (Bit2bool Bv_x k)) = (\<not> bit y k)"
    by simp
  ultimately show "sat_all W ((Mk_not (Bit2bool Bv_x k), a) # B) y =
      (sat_all W A y \<and> y div 2 ^ k = val div 2 ^ k)"
    using div_pow_Suc_bit[of y k] div_pow_Suc_bit[of val k] assms(2)
    by (auto simp: sat_all_Cons split: if_splits)
qed

lemma pinned_bit1:
  assumes "pinned W A B (Suc k) val" and "bit val k"
  shows "pinned W A ((Bit2bool Bv_x k, a) # B) k val"
  unfolding pinned_def
proof (intro allI impI)
  fix y :: int
  assume y: "0 \<le> y \<and> y < 2 ^ W"
  with assms(1) have "sat_all W B y = (sat_all W A y \<and> y div 2 ^ Suc k = val div 2 ^ Suc k)"
    by (simp add: pinned_def)
  moreover from y have "holds W y (Bit2bool Bv_x k) = bit y k"
    by simp
  ultimately show "sat_all W ((Bit2bool Bv_x k, a) # B) y =
      (sat_all W A y \<and> y div 2 ^ k = val div 2 ^ k)"
    using div_pow_Suc_bit[of y k] div_pow_Suc_bit[of val k] assms(2)
    by (auto simp: sat_all_Cons split: if_splits)
qed

text \<open>A model of the tentative assertion agrees with \<open>val\<close> above bit \<open>k\<close>.\<close>

lemma pinned_model:
  assumes "pinned W A B (Suc k) val" and "0 \<le> m" and "m < 2 ^ W"
    and "sat_all W ((f, a) # B) m"
  shows "sat_all W A m \<and> m div 2 ^ Suc k = val div 2 ^ Suc k \<and> holds W m f \<and>
         pinned W A B (Suc k) m"
  using assms by (simp add: pinned_def sat_all_Cons)

lemma lower_bound_bit0:
  assumes "lower_bound W A (Suc k) val" and "\<not> bit val k"
  shows "lower_bound W A k val"
  unfolding lower_bound_def
proof (intro allI impI)
  fix y :: int
  assume "0 \<le> y \<and> y < 2 ^ W \<and> sat_all W A y"
  with assms(1) have "val div 2 ^ Suc k \<le> y div 2 ^ Suc k"
    by (simp add: lower_bound_def)
  then show "val div 2 ^ k \<le> y div 2 ^ k"
    using div_pow_Suc_bit[of y k] div_pow_Suc_bit[of val k] assms(2)
    by (simp split: if_splits)
qed

lemma lower_bound_same_prefix:
  assumes "lower_bound W A k val" and "m div 2 ^ k = val div 2 ^ k"
  shows "lower_bound W A k m"
  using assms by (simp add: lower_bound_def)

lemma lower_bound_unsat:
  assumes "lower_bound W A (Suc k) val" and "pinned W A B (Suc k) val"
    and "\<forall>y. 0 \<le> y \<and> y < 2 ^ W \<longrightarrow> \<not> sat_all W ((Mk_not (Bit2bool Bv_x k), a) # B) y"
  shows "lower_bound W A k val"
  unfolding lower_bound_def
proof (intro allI impI)
  fix y :: int
  assume y: "0 \<le> y \<and> y < 2 ^ W \<and> sat_all W A y"
  with assms(1) have le: "val div 2 ^ Suc k \<le> y div 2 ^ Suc k"
    by (simp add: lower_bound_def)
  from y assms(2) have "y div 2 ^ Suc k = val div 2 ^ Suc k \<Longrightarrow> sat_all W B y"
    by (simp add: pinned_def)
  moreover from y assms(3) have "\<not> sat_all W ((Mk_not (Bit2bool Bv_x k), a) # B) y"
    by simp
  moreover from y have "holds W y (Mk_not (Bit2bool Bv_x k)) = (\<not> bit y k)"
    by simp
  ultimately have "y div 2 ^ Suc k = val div 2 ^ Suc k \<Longrightarrow> bit y k"
    by (auto simp: sat_all_Cons)
  with le show "val div 2 ^ k \<le> y div 2 ^ k"
    using div_pow_Suc_bit[of y k] div_pow_Suc_bit[of val k]
    by (cases "y div 2 ^ Suc k = val div 2 ^ Suc k") (simp_all split: if_splits)
qed

lemma upper_bound_bit1:
  assumes "upper_bound W A (Suc k) val" and "bit val k"
  shows "upper_bound W A k val"
  unfolding upper_bound_def
proof (intro allI impI)
  fix y :: int
  assume "0 \<le> y \<and> y < 2 ^ W \<and> sat_all W A y"
  with assms(1) have "y div 2 ^ Suc k \<le> val div 2 ^ Suc k"
    by (simp add: upper_bound_def)
  then show "y div 2 ^ k \<le> val div 2 ^ k"
    using div_pow_Suc_bit[of y k] div_pow_Suc_bit[of val k] assms(2)
    by (simp split: if_splits)
qed

lemma upper_bound_same_prefix:
  assumes "upper_bound W A k val" and "m div 2 ^ k = val div 2 ^ k"
  shows "upper_bound W A k m"
  using assms by (simp add: upper_bound_def)

lemma upper_bound_unsat:
  assumes "upper_bound W A (Suc k) val" and "pinned W A B (Suc k) val"
    and "\<forall>y. 0 \<le> y \<and> y < 2 ^ W \<longrightarrow> \<not> sat_all W ((Bit2bool Bv_x k, a) # B) y"
  shows "upper_bound W A k val"
  unfolding upper_bound_def
proof (intro allI impI)
  fix y :: int
  assume y: "0 \<le> y \<and> y < 2 ^ W \<and> sat_all W A y"
  with assms(1) have le: "y div 2 ^ Suc k \<le> val div 2 ^ Suc k"
    by (simp add: upper_bound_def)
  from y assms(2) have "y div 2 ^ Suc k = val div 2 ^ Suc k \<Longrightarrow> sat_all W B y"
    by (simp add: pinned_def)
  moreover from y assms(3) have "\<not> sat_all W ((Bit2bool Bv_x k, a) # B) y"
    by simp
  moreover from y have "holds W y (Bit2bool Bv_x k) = bit y k"
    by simp
  ultimately have "y div 2 ^ Suc k = val div 2 ^ Suc k \<Longrightarrow> \<not> bit y k"
    by (auto simp: sat_all_Cons)
  with le show "y div 2 ^ k \<le> val div 2 ^ k"
    using div_pow_Suc_bit[of y k] div_pow_Suc_bit[of val k]
    by (cases "y div 2 ^ Suc k = val div 2 ^ Suc k") (simp_all split: if_splits)
qed

lemma attempt_check:
  assumes "push u = Some u1" and "add e sign dep u1 = Some u2" and "check D u2 = (r, u3)"
  shows "r = verdict D (bit_width u) ((if sign then Mk_not e else e, Numerical dep) # asserted (slv u))"
    and "model_cache u3 \<noteq> []" and "last (model_cache u3) = - 1"
    and "last_model (slv u3) =
           (if r = l_true
            then Some (pick_model D (bit_width u)
                   ((if sign then Mk_not e else e, Numerical dep) # asserted (slv u)))
            else None)"
  using assms
  by (auto simp: push_Some add_Some check_eq last_list_update)

lemma model_invalid_cache:
  assumes "model u = Some (m, u')" and "last (model_cache u) < 0"
  shows "last_model (slv u) = Some m \<and> same_frame u u' \<and> slv u' = slv u"
  using assms
  by (auto simp: model_def s_get_model_def same_frame_def split: if_splits option.splits)

lemma find_min_loop_inv:
  assumes D: "sound_dp D W"
  shows "min_inv W A k val u \<Longrightarrow> find_min_loop D k val u = Some (True, v, u') \<Longrightarrow>
         min_inv W A 0 v u'"
proof (induction k arbitrary: val u)
  case 0
  then show ?case by simp
next
  case (Suc k)
  let ?B = "asserted (slv u)"
  from Suc.prems(1) have W: "bit_width u = W" and cache: "model_cache u \<noteq> []"
    and val: "0 \<le> val" "val < 2 ^ W" "sat_all W A val"
    and pin: "pinned W A ?B (Suc k) val" and lb: "lower_bound W A (Suc k) val"
    by (simp_all add: min_inv_def)
  show ?case
  proof (cases "bit val k")
    case False
    with Suc.prems(2) obtain u1 where a: "add_bit0 k 0 u = Some u1"
      and l: "find_min_loop D k val u1 = Some (True, v, u')"
      by (auto split: Option.bind_splits)
    from a have "asserted (slv u1) = (Mk_not (Bit2bool Bv_x k), Numerical 0) # ?B"
      and "bit_width u1 = bit_width u" and "model_cache u1 \<noteq> []"
      by (auto simp: add_bit0_Some)
    with W val pinned_bit0[OF pin False] lower_bound_bit0[OF lb False]
    have "min_inv W A k val u1"
      by (simp add: min_inv_def)
    from Suc.IH[OF this l] show ?thesis .
  next
    case True
    from Suc.prems(2) True obtain u1 u2 r u3 val' u4 u5 where
      p: "push u = Some u1" and a: "add_bit0 k 0 u1 = Some u2" and c: "check D u2 = (r, u3)"
      and m: "(if r = l_true then do { (m, u') \<leftarrow> model u3; if m < val then Some (m, u') else None }
               else Some (val, u3)) = Some (val', u4)"
      and q: "pop 1 u4 = Some u5"
      and rest: "(if r = l_true then do { u6 \<leftarrow> add_bit0 k 0 u5; find_min_loop D k val' u6 }
                  else if r = l_false then do { u6 \<leftarrow> add_bit1 k 0 u5; find_min_loop D k val' u6 }
                  else Some (False, val', u5)) = Some (True, v, u')"
      by (rule find_min_loop_SucE)
    let ?F = "(Mk_not (Bit2bool Bv_x k), Numerical 0)"
    from a have a': "add (Bit2bool Bv_x k) True 0 u1 = Some u2"
      by (simp add: add_bit0_def add_bit_def)
    from attempt_check[OF p a' c] W have r: "r = verdict D W (?F # ?B)"
      and inv3: "last (model_cache u3) < 0"
      and lm: "last_model (slv u3) = (if r = l_true then Some (pick_model D W (?F # ?B)) else None)"
      by simp_all
    from m have f34: "same_frame u3 u4 \<and> slv u4 = slv u3"
      by (auto simp: same_frame_refl dest: model_same_frame split: if_splits Option.bind_splits)
    from attempt_same_frame[OF p a' c _ _ q] f34
    have f5: "same_frame u u5" and B5: "asserted (slv u5) = ?B"
      by simp_all
    from f5 W cache have W5: "bit_width u5 = W" and cache5: "model_cache u5 \<noteq> []"
      by (auto simp: same_frame_def)
    show ?thesis
    proof (cases r)
      case l_true
      with m obtain mm where mm: "model u3 = Some (mm, u4)" and v': "val' = mm"
        by (auto split: Option.bind_splits if_splits)
      from model_invalid_cache[OF mm inv3] lm l_true have "mm = pick_model D W (?F # ?B)"
        by simp
      with sound_dp_sat[OF D] r l_true have mr: "0 \<le> mm" "mm < 2 ^ W" and ms: "sat_all W (?F # ?B) mm"
        by auto
      from pinned_model[OF pin mr ms] mr
      have mA: "sat_all W A mm" and pre: "mm div 2 ^ Suc k = val div 2 ^ Suc k"
        and nb: "\<not> bit mm k" and pin': "pinned W A ?B (Suc k) mm"
        by simp_all
      from lower_bound_same_prefix[OF lb pre] have lb': "lower_bound W A (Suc k) mm" .
      from rest l_true v' obtain u6 where a6: "add_bit0 k 0 u5 = Some u6"
        and l: "find_min_loop D k mm u6 = Some (True, v, u')"
        by (auto split: Option.bind_splits)
      from a6 B5 W5 have "asserted (slv u6) = ?F # ?B" and "bit_width u6 = W" and "model_cache u6 \<noteq> []"
        by (auto simp: add_bit0_Some)
      with mr mA pinned_bit0[OF pin' nb] lower_bound_bit0[OF lb' nb]
      have "min_inv W A k mm u6"
        by (simp add: min_inv_def)
      from Suc.IH[OF this l] show ?thesis .
    next
      case l_false
      with m have v': "val' = val"
        by simp
      from sound_dp_unsat[OF D] r l_false
      have un: "\<forall>y. 0 \<le> y \<and> y < 2 ^ W \<longrightarrow> \<not> sat_all W (?F # ?B) y"
        by auto
      from rest l_false v' obtain u6 where a6: "add_bit1 k 0 u5 = Some u6"
        and l: "find_min_loop D k val u6 = Some (True, v, u')"
        by (auto split: Option.bind_splits)
      from a6 B5 W5 have "asserted (slv u6) = (Bit2bool Bv_x k, Numerical 0) # ?B"
        and "bit_width u6 = W" and "model_cache u6 \<noteq> []"
        by (auto simp: add_bit1_Some)
      with val pinned_bit1[OF pin True] lower_bound_unsat[OF lb pin un]
      have "min_inv W A k val u6"
        by (simp add: min_inv_def)
      from Suc.IH[OF this l] show ?thesis .
    next
      case l_undef
      with rest show ?thesis by simp
    qed
  qed
qed

lemma find_max_loop_inv:
  assumes D: "sound_dp D W"
  shows "max_inv W A k val u \<Longrightarrow> find_max_loop D k val u = Some (True, v, u') \<Longrightarrow>
         max_inv W A 0 v u'"
proof (induction k arbitrary: val u)
  case 0
  then show ?case by simp
next
  case (Suc k)
  let ?B = "asserted (slv u)"
  from Suc.prems(1) have W: "bit_width u = W" and cache: "model_cache u \<noteq> []"
    and val: "0 \<le> val" "val < 2 ^ W" "sat_all W A val"
    and pin: "pinned W A ?B (Suc k) val" and ub: "upper_bound W A (Suc k) val"
    by (simp_all add: max_inv_def)
  show ?case
  proof (cases "bit val k")
    case True
    with Suc.prems(2) obtain u1 where a: "add_bit1 k 0 u = Some u1"
      and l: "find_max_loop D k val u1 = Some (True, v, u')"
      by (auto split: Option.bind_splits)
    from a have "asserted (slv u1) = (Bit2bool Bv_x k, Numerical 0) # ?B"
      and "bit_width u1 = bit_width u" and "model_cache u1 \<noteq> []"
      by (auto simp: add_bit1_Some)
    with W val pinned_bit1[OF pin True] upper_bound_bit1[OF ub True]
    have "max_inv W A k val u1"
      by (simp add: max_inv_def)
    from Suc.IH[OF this l] show ?thesis .
  next
    case False
    from Suc.prems(2) False obtain u1 u2 r u3 val' u4 u5 where
      p: "push u = Some u1" and a: "add_bit1 k 0 u1 = Some u2" and c: "check D u2 = (r, u3)"
      and m: "(if r = l_true then do { (m, u') \<leftarrow> model u3; if m > val then Some (m, u') else None }
               else Some (val, u3)) = Some (val', u4)"
      and q: "pop 1 u4 = Some u5"
      and rest: "(if r = l_true then do { u6 \<leftarrow> add_bit1 k 0 u5; find_max_loop D k val' u6 }
                  else if r = l_false then do { u6 \<leftarrow> add_bit0 k 0 u5; find_max_loop D k val' u6 }
                  else Some (False, val', u5)) = Some (True, v, u')"
      by (rule find_max_loop_SucE)
    let ?F = "(Bit2bool Bv_x k, Numerical 0)"
    from a have a': "add (Bit2bool Bv_x k) False 0 u1 = Some u2"
      by (simp add: add_bit1_def add_bit_def)
    from attempt_check[OF p a' c] W have r: "r = verdict D W (?F # ?B)"
      and inv3: "last (model_cache u3) < 0"
      and lm: "last_model (slv u3) = (if r = l_true then Some (pick_model D W (?F # ?B)) else None)"
      by simp_all
    from m have f34: "same_frame u3 u4 \<and> slv u4 = slv u3"
      by (auto simp: same_frame_refl dest: model_same_frame split: if_splits Option.bind_splits)
    from attempt_same_frame[OF p a' c _ _ q] f34
    have f5: "same_frame u u5" and B5: "asserted (slv u5) = ?B"
      by simp_all
    from f5 W cache have W5: "bit_width u5 = W" and cache5: "model_cache u5 \<noteq> []"
      by (auto simp: same_frame_def)
    show ?thesis
    proof (cases r)
      case l_true
      with m obtain mm where mm: "model u3 = Some (mm, u4)" and v': "val' = mm"
        by (auto split: Option.bind_splits if_splits)
      from model_invalid_cache[OF mm inv3] lm l_true have "mm = pick_model D W (?F # ?B)"
        by simp
      with sound_dp_sat[OF D] r l_true have mr: "0 \<le> mm" "mm < 2 ^ W" and ms: "sat_all W (?F # ?B) mm"
        by auto
      from pinned_model[OF pin mr ms] mr
      have mA: "sat_all W A mm" and pre: "mm div 2 ^ Suc k = val div 2 ^ Suc k"
        and b: "bit mm k" and pin': "pinned W A ?B (Suc k) mm"
        by simp_all
      from upper_bound_same_prefix[OF ub pre] have ub': "upper_bound W A (Suc k) mm" .
      from rest l_true v' obtain u6 where a6: "add_bit1 k 0 u5 = Some u6"
        and l: "find_max_loop D k mm u6 = Some (True, v, u')"
        by (auto split: Option.bind_splits)
      from a6 B5 W5 have "asserted (slv u6) = ?F # ?B" and "bit_width u6 = W" and "model_cache u6 \<noteq> []"
        by (auto simp: add_bit1_Some)
      with mr mA pinned_bit1[OF pin' b] upper_bound_bit1[OF ub' b]
      have "max_inv W A k mm u6"
        by (simp add: max_inv_def)
      from Suc.IH[OF this l] show ?thesis .
    next
      case l_false
      with m have v': "val' = val"
        by simp
      from sound_dp_unsat[OF D] r l_false
      have un: "\<forall>y. 0 \<le> y \<and> y < 2 ^ W \<longrightarrow> \<not> sat_all W (?F # ?B) y"
        by auto
      from rest l_false v' obtain u6 where a6: "add_bit0 k 0 u5 = Some u6"
        and l: "find_max_loop D k val u6 = Some (True, v, u')"
        by (auto split: Option.bind_splits)
      from a6 B5 W5 have "asserted (slv u6) = (Mk_not (Bit2bool Bv_x k), Numerical 0) # ?B"
        and "bit_width u6 = W" and "model_cache u6 \<noteq> []"
        by (auto simp: add_bit0_Some)
      with val pinned_bit0[OF pin False] upper_bound_unsat[OF ub pin un]
      have "max_inv W A k val u6"
        by (simp add: max_inv_def)
      from Suc.IH[OF this l] show ?thesis .
    next
      case l_undef
      with rest show ?thesis by simp
    qed
  qed
qed

text \<open>The searches return success when no check is inconclusive.\<close>

lemma word_one_le: "(1::32 word) \<le> x \<longleftrightarrow> x \<noteq> 0"
  by (simp add: word_le_nat_alt unat_gt_0 Suc_le_eq)

lemma model_from_solver:
  assumes "model_cache u \<noteq> []" and "last (model_cache u) < 0" and "last_model (slv u) = Some m"
  shows "\<exists>u'. model u = Some (m, u') \<and> same_frame u u' \<and> slv u' = slv u"
  using assms by (simp add: model_def s_get_model_def same_frame_def)

lemma attempt_pop:
  assumes "push u = Some u1" and "add e sign dep u1 = Some u2" and "check D u2 = (r, u3)"
    and "same_frame u3 u4" and "slv u4 = slv u3" and "m_scope_level u + 1 \<noteq> 0"
  shows "\<exists>u5. pop 1 u4 = Some u5"
proof -
  from assms have "m_scope_level u4 = m_scope_level u + 1"
    and "length (model_cache u4) = Suc (length (model_cache u))"
    and "checkpoints (slv u4) = asserted (slv u) # checkpoints (slv u)"
    by (auto simp: push_Some add_Some check_eq same_frame_def)
  with assms(6) have "1 \<le> m_scope_level u4" and "model_cache u4 \<noteq> []"
    and "checkpoints (slv u4) \<noteq> []"
    by (auto simp: word_one_le)
  then show ?thesis
    by (simp add: pop_1_Some)
qed

lemma find_min_loop_succeeds:
  assumes D: "sound_dp D W" and dec: "decisive D W"
  shows "min_inv W A k val u \<Longrightarrow> m_scope_level u + 1 \<noteq> 0 \<Longrightarrow>
         \<exists>v u'. find_min_loop D k val u = Some (True, v, u')"
proof (induction k arbitrary: val u)
  case 0
  show ?case by simp
next
  case (Suc k)
  let ?B = "asserted (slv u)"
  from Suc.prems(1) have W: "bit_width u = W" and cache: "model_cache u \<noteq> []"
    and val: "0 \<le> val" "val < 2 ^ W" "sat_all W A val"
    and pin: "pinned W A ?B (Suc k) val" and lb: "lower_bound W A (Suc k) val"
    by (simp_all add: min_inv_def)
  show ?case
  proof (cases "bit val k")
    case False
    from cache obtain u1 where a: "add_bit0 k 0 u = Some u1"
      by (simp add: add_bit0_Some)
    then have "asserted (slv u1) = (Mk_not (Bit2bool Bv_x k), Numerical 0) # ?B"
      and "bit_width u1 = bit_width u" and "model_cache u1 \<noteq> []"
      and "m_scope_level u1 = m_scope_level u"
      by (auto simp: add_bit0_Some)
    with W val pinned_bit0[OF pin False] lower_bound_bit0[OF lb False] Suc.prems(2)
    have "min_inv W A k val u1" and "m_scope_level u1 + 1 \<noteq> 0"
      by (simp_all add: min_inv_def)
    from Suc.IH[OF this] a False show ?thesis
      by simp
  next
    case True
    let ?F = "(Mk_not (Bit2bool Bv_x k), Numerical 0)"
    from cache obtain u1 where p: "push u = Some u1"
      by (simp add: push_Some)
    then have "model_cache u1 \<noteq> []"
      by (auto simp: push_Some)
    then obtain u2 where a: "add_bit0 k 0 u1 = Some u2"
      by (simp add: add_bit0_Some)
    obtain r u3 where c: "check D u2 = (r, u3)"
      by (cases "check D u2")
    from a have a': "add (Bit2bool Bv_x k) True 0 u1 = Some u2"
      by (simp add: add_bit0_def add_bit_def)
    from attempt_check[OF p a' c] W have r: "r = verdict D W (?F # ?B)"
      and ne3: "model_cache u3 \<noteq> []" and inv3: "last (model_cache u3) < 0"
      and lm: "last_model (slv u3) = (if r = l_true then Some (pick_model D W (?F # ?B)) else None)"
      by simp_all
    have popok: "\<exists>u5. pop 1 u4 = Some u5 \<and> same_frame u u5 \<and> asserted (slv u5) = ?B"
      if "same_frame u3 u4" "slv u4 = slv u3" for u4
    proof -
      from attempt_pop[OF p a' c that Suc.prems(2)] obtain u5 where q: "pop 1 u4 = Some u5"
        by blast
      from attempt_same_frame[OF p a' c that q] q show ?thesis
        by simp
    qed
    from dec r have "r \<noteq> l_undef"
      by (simp add: decisive_def)
    then consider "r = l_true" | "r = l_false"
      by (cases r) simp_all
    then show ?thesis
    proof cases
      case 1
      let ?m = "pick_model D W (?F # ?B)"
      from model_from_solver[OF ne3 inv3] lm 1 obtain u4 where
        mm: "model u3 = Some (?m, u4)" and f34: "same_frame u3 u4" "slv u4 = slv u3"
        by auto
      from sound_dp_sat[OF D] r 1 have mr: "0 \<le> ?m" "?m < 2 ^ W" and ms: "sat_all W (?F # ?B) ?m"
        by auto
      from pinned_model[OF pin mr ms] mr
      have mA: "sat_all W A ?m" and pre: "?m div 2 ^ Suc k = val div 2 ^ Suc k"
        and nb: "\<not> bit ?m k" and pin': "pinned W A ?B (Suc k) ?m"
        by simp_all
      from pre nb True have "?m div 2 ^ k < val div 2 ^ k"
        using div_pow_Suc_bit[of ?m k] div_pow_Suc_bit[of val k] by simp
      then have less: "?m < val"
        by (rule div_pow_less)
      from lower_bound_same_prefix[OF lb pre] have lb': "lower_bound W A (Suc k) ?m" .
      from popok[OF f34] obtain u5 where q: "pop 1 u4 = Some u5"
        and f5: "same_frame u u5" and B5: "asserted (slv u5) = ?B"
        by auto
      from f5 W cache have W5: "bit_width u5 = W" and cache5: "model_cache u5 \<noteq> []"
        and l5: "m_scope_level u5 = m_scope_level u"
        by (auto simp: same_frame_def)
      from cache5 obtain u6 where a6: "add_bit0 k 0 u5 = Some u6"
        by (simp add: add_bit0_Some)
      with B5 W5 l5 have "asserted (slv u6) = ?F # ?B" and "bit_width u6 = W"
        and "model_cache u6 \<noteq> []" and "m_scope_level u6 = m_scope_level u"
        by (auto simp: add_bit0_Some)
      with mr mA pinned_bit0[OF pin' nb] lower_bound_bit0[OF lb' nb] Suc.prems(2)
      have "min_inv W A k ?m u6" and "m_scope_level u6 + 1 \<noteq> 0"
        by (simp_all add: min_inv_def)
      from Suc.IH[OF this] True p a c mm less q a6 1 show ?thesis
        by simp
    next
      case 2
      from sound_dp_unsat[OF D] r 2
      have un: "\<forall>y. 0 \<le> y \<and> y < 2 ^ W \<longrightarrow> \<not> sat_all W (?F # ?B) y"
        by auto
      from popok[of u3] obtain u5 where q: "pop 1 u3 = Some u5"
        and f5: "same_frame u u5" and B5: "asserted (slv u5) = ?B"
        by (auto simp: same_frame_refl)
      from f5 W cache have W5: "bit_width u5 = W" and cache5: "model_cache u5 \<noteq> []"
        and l5: "m_scope_level u5 = m_scope_level u"
        by (auto simp: same_frame_def)
      from cache5 obtain u6 where a6: "add_bit1 k 0 u5 = Some u6"
        by (simp add: add_bit1_Some)
      with B5 W5 l5 have "asserted (slv u6) = (Bit2bool Bv_x k, Numerical 0) # ?B"
        and "bit_width u6 = W" and "model_cache u6 \<noteq> []" and "m_scope_level u6 = m_scope_level u"
        by (auto simp: add_bit1_Some)
      with val pinned_bit1[OF pin True] lower_bound_unsat[OF lb pin un] Suc.prems(2)
      have "min_inv W A k val u6" and "m_scope_level u6 + 1 \<noteq> 0"
        by (simp_all add: min_inv_def)
      from Suc.IH[OF this] True p a c q a6 2 show ?thesis
        by simp
    qed
  qed
qed

lemma find_max_loop_succeeds:
  assumes D: "sound_dp D W" and dec: "decisive D W"
  shows "max_inv W A k val u \<Longrightarrow> m_scope_level u + 1 \<noteq> 0 \<Longrightarrow>
         \<exists>v u'. find_max_loop D k val u = Some (True, v, u')"
proof (induction k arbitrary: val u)
  case 0
  show ?case by simp
next
  case (Suc k)
  let ?B = "asserted (slv u)"
  from Suc.prems(1) have W: "bit_width u = W" and cache: "model_cache u \<noteq> []"
    and val: "0 \<le> val" "val < 2 ^ W" "sat_all W A val"
    and pin: "pinned W A ?B (Suc k) val" and ub: "upper_bound W A (Suc k) val"
    by (simp_all add: max_inv_def)
  show ?case
  proof (cases "bit val k")
    case True
    from cache obtain u1 where a: "add_bit1 k 0 u = Some u1"
      by (simp add: add_bit1_Some)
    then have "asserted (slv u1) = (Bit2bool Bv_x k, Numerical 0) # ?B"
      and "bit_width u1 = bit_width u" and "model_cache u1 \<noteq> []"
      and "m_scope_level u1 = m_scope_level u"
      by (auto simp: add_bit1_Some)
    with W val pinned_bit1[OF pin True] upper_bound_bit1[OF ub True] Suc.prems(2)
    have "max_inv W A k val u1" and "m_scope_level u1 + 1 \<noteq> 0"
      by (simp_all add: max_inv_def)
    from Suc.IH[OF this] a True show ?thesis
      by simp
  next
    case False
    let ?F = "(Bit2bool Bv_x k, Numerical 0)"
    from cache obtain u1 where p: "push u = Some u1"
      by (simp add: push_Some)
    then have "model_cache u1 \<noteq> []"
      by (auto simp: push_Some)
    then obtain u2 where a: "add_bit1 k 0 u1 = Some u2"
      by (simp add: add_bit1_Some)
    obtain r u3 where c: "check D u2 = (r, u3)"
      by (cases "check D u2")
    from a have a': "add (Bit2bool Bv_x k) False 0 u1 = Some u2"
      by (simp add: add_bit1_def add_bit_def)
    from attempt_check[OF p a' c] W have r: "r = verdict D W (?F # ?B)"
      and ne3: "model_cache u3 \<noteq> []" and inv3: "last (model_cache u3) < 0"
      and lm: "last_model (slv u3) = (if r = l_true then Some (pick_model D W (?F # ?B)) else None)"
      by simp_all
    have popok: "\<exists>u5. pop 1 u4 = Some u5 \<and> same_frame u u5 \<and> asserted (slv u5) = ?B"
      if "same_frame u3 u4" "slv u4 = slv u3" for u4
    proof -
      from attempt_pop[OF p a' c that Suc.prems(2)] obtain u5 where q: "pop 1 u4 = Some u5"
        by blast
      from attempt_same_frame[OF p a' c that q] q show ?thesis
        by simp
    qed
    from dec r have "r \<noteq> l_undef"
      by (simp add: decisive_def)
    then consider "r = l_true" | "r = l_false"
      by (cases r) simp_all
    then show ?thesis
    proof cases
      case 1
      let ?m = "pick_model D W (?F # ?B)"
      from model_from_solver[OF ne3 inv3] lm 1 obtain u4 where
        mm: "model u3 = Some (?m, u4)" and f34: "same_frame u3 u4" "slv u4 = slv u3"
        by auto
      from sound_dp_sat[OF D] r 1 have mr: "0 \<le> ?m" "?m < 2 ^ W" and ms: "sat_all W (?F # ?B) ?m"
        by auto
      from pinned_model[OF pin mr ms] mr
      have mA: "sat_all W A ?m" and pre: "?m div 2 ^ Suc k = val div 2 ^ Suc k"
        and b: "bit ?m k" and pin': "pinned W A ?B (Suc k) ?m"
        by simp_all
      from pre b False have "val div 2 ^ k < ?m div 2 ^ k"
        using div_pow_Suc_bit[of ?m k] div_pow_Suc_bit[of val k] by simp
      then have less: "val < ?m"
        by (rule div_pow_less)
      from upper_bound_same_prefix[OF ub pre] have ub': "upper_bound W A (Suc k) ?m" .
      from popok[OF f34] obtain u5 where q: "pop 1 u4 = Some u5"
        and f5: "same_frame u u5" and B5: "asserted (slv u5) = ?B"
        by auto
      from f5 W cache have W5: "bit_width u5 = W" and cache5: "model_cache u5 \<noteq> []"
        and l5: "m_scope_level u5 = m_scope_level u"
        by (auto simp: same_frame_def)
      from cache5 obtain u6 where a6: "add_bit1 k 0 u5 = Some u6"
        by (simp add: add_bit1_Some)
      with B5 W5 l5 have "asserted (slv u6) = ?F # ?B" and "bit_width u6 = W"
        and "model_cache u6 \<noteq> []" and "m_scope_level u6 = m_scope_level u"
        by (auto simp: add_bit1_Some)
      with mr mA pinned_bit1[OF pin' b] upper_bound_bit1[OF ub' b] Suc.prems(2)
      have "max_inv W A k ?m u6" and "m_scope_level u6 + 1 \<noteq> 0"
        by (simp_all add: max_inv_def)
      from Suc.IH[OF this] False p a c mm less q a6 1 show ?thesis
        by simp
    next
      case 2
      from sound_dp_unsat[OF D] r 2
      have un: "\<forall>y. 0 \<le> y \<and> y < 2 ^ W \<longrightarrow> \<not> sat_all W (?F # ?B) y"
        by auto
      from popok[of u3] obtain u5 where q: "pop 1 u3 = Some u5"
        and f5: "same_frame u u5" and B5: "asserted (slv u5) = ?B"
        by (auto simp: same_frame_refl)
      from f5 W cache have W5: "bit_width u5 = W" and cache5: "model_cache u5 \<noteq> []"
        and l5: "m_scope_level u5 = m_scope_level u"
        by (auto simp: same_frame_def)
      from cache5 obtain u6 where a6: "add_bit0 k 0 u5 = Some u6"
        by (simp add: add_bit0_Some)
      with B5 W5 l5 have "asserted (slv u6) = (Mk_not (Bit2bool Bv_x k), Numerical 0) # ?B"
        and "bit_width u6 = W" and "model_cache u6 \<noteq> []" and "m_scope_level u6 = m_scope_level u"
        by (auto simp: add_bit0_Some)
      with val pinned_bit0[OF pin False] upper_bound_unsat[OF ub pin un] Suc.prems(2)
      have "max_inv W A k val u6" and "m_scope_level u6 + 1 \<noteq> 0"
        by (simp_all add: max_inv_def)
      from Suc.IH[OF this] False p a c q a6 2 show ?thesis
        by simp
    qed
  qed
qed

text \<open>
  With a sound decision procedure that never answers unknown, from a solver whose
  scope level leaves room for two more scopes, the searches return success.
\<close>

lemma find_min_max_succeed:
  assumes D: "sound_dp D (bit_width u)" and dec: "decisive D (bit_width u)"
    and entry: "model u = Some (v0, u0)" "0 \<le> v0" "v0 < 2 ^ bit_width u"
      "sat_all (bit_width u) (asserted (slv u)) v0"
    and room: "m_scope_level u + 1 \<noteq> 0" "m_scope_level u + 2 \<noteq> 0"
  shows "(\<exists>v u'. find_min D u = Some (True, v, u')) \<and> (\<exists>v u'. find_max D u = Some (True, v, u'))"
proof -
  let ?W = "bit_width u" and ?A = "asserted (slv u)"
  from model_same_frame[OF entry(1)] entry(1)
  have u0: "slv u0 = slv u" "bit_width u0 = ?W" "model_cache u0 \<noteq> []"
    "m_scope_level u0 = m_scope_level u"
    by (auto simp: same_frame_def model_def split: if_splits)
  then obtain u2 where p: "push u0 = Some u2"
    by (simp add: push_Some)
  with u0 have u2: "bit_width u2 = ?W" "asserted (slv u2) = ?A" "model_cache u2 \<noteq> []"
    "m_scope_level u2 = m_scope_level u + 1" "checkpoints (slv u2) \<noteq> []"
    by (auto simp: push_Some)
  from room u2 have room2: "m_scope_level u2 + 1 \<noteq> 0"
    by (simp add: add.assoc)
  have closing: "\<exists>u4. pop 1 u3 = Some u4" if "same_frame u2 u3" for u3
  proof -
    from that u2 room(1) have "1 \<le> m_scope_level u3" "model_cache u3 \<noteq> []"
      "checkpoints (slv u3) \<noteq> []"
      by (auto simp: same_frame_def word_one_le)
    then show ?thesis
      by (simp add: pop_1_Some)
  qed
  from u2 entry pinned_start[of v0 ?W ?A] lower_bound_start[of v0 ?W ?A]
  have "min_inv ?W ?A ?W v0 u2"
    by (simp add: min_inv_def)
  from find_min_loop_succeeds[OF D dec this room2] obtain v u3 where
    l: "find_min_loop D ?W v0 u2 = Some (True, v, u3)"
    by blast
  from closing[OF find_min_loop_frame[OF l]] obtain u4 where "pop 1 u3 = Some u4"
    by blast
  with entry(1) p l u2 have 1: "find_min D u = Some (True, v, u4)"
    by (simp add: find_min_def)
  from u2 entry pinned_start[of v0 ?W ?A] upper_bound_start[of v0 ?W ?A]
  have "max_inv ?W ?A ?W v0 u2"
    by (simp add: max_inv_def)
  from find_max_loop_succeeds[OF D dec this room2] obtain w u5 where
    l': "find_max_loop D ?W v0 u2 = Some (True, w, u5)"
    by blast
  from closing[OF find_max_loop_frame[OF l']] obtain u6 where "pop 1 u5 = Some u6"
    by blast
  with entry(1) p l' u2 have 2: "find_max D u = Some (True, w, u6)"
    by (simp add: find_max_def)
  from 1 2 show ?thesis
    by blast
qed

text \<open>
  After a check that says sat, from a solver whose cache frame is invalid (as after
  every \<^verbatim>\<open>add\<close>), \<^verbatim>\<open>model\<close> yields a satisfying value of the range.
\<close>

lemma model_after_sat_check:
  assumes "sound_dp D (bit_width u)" and "check D u = (l_true, u')"
    and "model_cache u \<noteq> []" and "last (model_cache u) < 0"
  shows "\<exists>v u''. model u' = Some (v, u'') \<and> 0 \<le> v \<and> v < 2 ^ bit_width u' \<and>
           sat_all (bit_width u') (asserted (slv u')) v"
proof -
  from assms(2) have v: "verdict D (bit_width u) (asserted (slv u)) = l_true"
    and u': "bit_width u' = bit_width u" "asserted (slv u') = asserted (slv u)"
      "model_cache u' = model_cache u"
      "last_model (slv u') = Some (pick_model D (bit_width u) (asserted (slv u)))"
    by (auto simp: check_eq)
  from model_from_solver[of u'] u' assms(3,4) obtain u'' where
    "model u' = Some (pick_model D (bit_width u) (asserted (slv u)), u'')"
    by auto
  with sound_dp_sat[OF assms(1) v] u' show ?thesis
    by simp
qed

lemma find_Some_sat: "find P xs = Some v \<Longrightarrow> v \<in> set xs \<and> P v"
  by (auto simp: find_Some_iff)

lemma labelled_all: "labelled (map snd as) as = as"
  by (induction as) (auto simp: labelled_def)

lemma sound_brute_dp: "sound_dp brute_dp W"
  unfolding sound_dp_def
proof (intro allI conjI impI)
  fix as
  assume "verdict brute_dp W as = l_true"
  then obtain v where "find (sat_all W as) (candidates W) = Some v"
    by (auto simp: brute_dp_def split: if_splits)
  then have "pick_model brute_dp W as = v" and "v \<in> set (candidates W)" and "sat_all W as v"
    by (auto simp: brute_dp_def dest: find_Some_sat)
  then show "0 \<le> pick_model brute_dp W as" "pick_model brute_dp W as < 2 ^ W"
    "sat_all W as (pick_model brute_dp W as)"
    by (simp_all add: set_candidates)
next
  fix as
  assume "verdict brute_dp W as = l_false"
  then have "find (sat_all W as) (candidates W) = None"
    by (auto simp: brute_dp_def split: if_splits)
  then show "\<not> list_ex (sat_all W as) (candidates W)"
    by (simp add: find_None_iff list_ex_iff)
  then show "\<not> list_ex (sat_all W (labelled (pick_core brute_dp W as) as)) (candidates W)"
    by (simp add: brute_dp_def labelled_all)
  show "set (pick_core brute_dp W as) \<subseteq> snd ` set as"
    by (simp add: brute_dp_def)
qed

text \<open>The value a successful search returns: least for \<^verbatim>\<open>find_min\<close>, greatest for \<^verbatim>\<open>find_max\<close>.\<close>

lemma find_min_least:
  assumes D: "sound_dp D (bit_width u)"
    and entry: "model u = Some (v0, u0)" "0 \<le> v0" "v0 < 2 ^ bit_width u"
      "sat_all (bit_width u) (asserted (slv u)) v0"
    and res: "find_min D u = Some (True, v, u')"
  shows "0 \<le> v \<and> v < 2 ^ bit_width u \<and> sat_all (bit_width u) (asserted (slv u)) v \<and>
         (\<forall>y. 0 \<le> y \<and> y < 2 ^ bit_width u \<and> sat_all (bit_width u) (asserted (slv u)) y
              \<longrightarrow> v \<le> y)"
proof -
  let ?W = "bit_width u" and ?A = "asserted (slv u)"
  from entry(1) have u0: "slv u0 = slv u" "bit_width u0 = ?W" "model_cache u0 \<noteq> []"
    using model_same_frame[OF entry(1)]
    by (auto simp: same_frame_def model_def split: if_splits)
  from res obtain u2 u3 where p: "push u0 = Some u2"
    and l: "find_min_loop D (bit_width u2) v0 u2 = Some (True, v, u3)"
    using entry(1) by (auto elim!: find_min_E)
  from p u0 have "bit_width u2 = ?W" "asserted (slv u2) = ?A" "model_cache u2 \<noteq> []"
    by (auto simp: push_Some)
  with entry pinned_start[of v0 ?W ?A] lower_bound_start[of v0 ?W ?A]
  have "min_inv ?W ?A ?W v0 u2"
    by (simp add: min_inv_def)
  from find_min_loop_inv[OF D this] l \<open>bit_width u2 = ?W\<close> have "min_inv ?W ?A 0 v u3"
    by simp
  then show ?thesis
    by (simp add: min_inv_def lower_bound_def)
qed

lemma find_max_greatest:
  assumes D: "sound_dp D (bit_width u)"
    and entry: "model u = Some (v0, u0)" "0 \<le> v0" "v0 < 2 ^ bit_width u"
      "sat_all (bit_width u) (asserted (slv u)) v0"
    and res: "find_max D u = Some (True, v, u')"
  shows "0 \<le> v \<and> v < 2 ^ bit_width u \<and> sat_all (bit_width u) (asserted (slv u)) v \<and>
         (\<forall>y. 0 \<le> y \<and> y < 2 ^ bit_width u \<and> sat_all (bit_width u) (asserted (slv u)) y
              \<longrightarrow> y \<le> v)"
proof -
  let ?W = "bit_width u" and ?A = "asserted (slv u)"
  from entry(1) have u0: "slv u0 = slv u" "bit_width u0 = ?W" "model_cache u0 \<noteq> []"
    using model_same_frame[OF entry(1)]
    by (auto simp: same_frame_def model_def split: if_splits)
  from res obtain u2 u3 where p: "push u0 = Some u2"
    and l: "find_max_loop D (bit_width u2) v0 u2 = Some (True, v, u3)"
    using entry(1) by (auto elim!: find_max_E)
  from p u0 have "bit_width u2 = ?W" "asserted (slv u2) = ?A" "model_cache u2 \<noteq> []"
    by (auto simp: push_Some)
  with entry pinned_start[of v0 ?W ?A] upper_bound_start[of v0 ?W ?A]
  have "max_inv ?W ?A ?W v0 u2"
    by (simp add: max_inv_def)
  from find_max_loop_inv[OF D this] l \<open>bit_width u2 = ?W\<close> have "max_inv ?W ?A 0 v u3"
    by simp
  then show ?thesis
    by (simp add: max_inv_def upper_bound_def)
qed

text \<open>
  The spec's scenario B, for every sound decision procedure that never answers unknown:
  at width 4 with \<open>x \<le> 10\<close> the check is sat, \<^verbatim>\<open>find_min\<close> returns 0 and \<^verbatim>\<open>find_max\<close>
  returns 10.
\<close>

lemma scenario_B_every_procedure:
  assumes D: "sound_dp D 4" and dec: "decisive D 4"
  shows "\<exists>ua ub. add_ule_const 10 False 1 (mk_univariate_bitblast_solver 4) = Some ua \<and>
           check D ua = (l_true, ub) \<and>
           (\<exists>u'. find_min D ub = Some (True, 0, u')) \<and>
           (\<exists>u'. find_max D ub = Some (True, 10, u'))"
proof -
  let ?A = "[(Bv_ule Bv_x (Bv_numeral 10), Numerical 1)]"
  let ?ua = "\<lparr>slv = \<lparr>asserted = ?A, checkpoints = [], last_model = None, last_core = []\<rparr>,
              bit_width = 4, m_scope_level = 0, model_cache = [- 1]\<rparr>"
  have a: "add_ule_const 10 False 1 (mk_univariate_bitblast_solver 4) = Some ?ua"
    by code_simp
  have sat: "sat_all 4 ?A y \<longleftrightarrow> y \<le> 10" if "0 \<le> y" "y < 2 ^ 4" for y
    using that by (simp add: sat_all_def)
  obtain r ub where c: "check D ?ua = (r, ub)"
    by (cases "check D ?ua")
  then have r: "r = verdict D 4 ?A" and ub: "bit_width ub = 4" "asserted (slv ub) = ?A"
    "m_scope_level ub = 0"
    by (auto simp: check_eq)
  from dec r have "r \<noteq> l_undef"
    by (simp add: decisive_def)
  moreover have "r \<noteq> l_false"
    using sound_dp_unsat[OF D, of ?A 0] r sat[of 0] by auto
  ultimately have t: "r = l_true"
    by (cases r) simp_all
  have D': "sound_dp D (bit_width ?ua)" "sound_dp D (bit_width ub)" "decisive D (bit_width ub)"
    using D dec ub by simp_all
  from model_after_sat_check[OF D'(1) c[unfolded t]] ub obtain v0 u0 where
    m: "model ub = Some (v0, u0)" and v0: "0 \<le> v0" "v0 < 2 ^ bit_width ub"
      "sat_all (bit_width ub) (asserted (slv ub)) v0"
    by auto
  from ub have room: "m_scope_level ub + 1 \<noteq> 0" "m_scope_level ub + 2 \<noteq> 0"
    by simp_all
  from find_min_max_succeed[OF D'(2,3) m v0 room] obtain v u' w u'' where
    fmin: "find_min D ub = Some (True, v, u')" and fmax: "find_max D ub = Some (True, w, u'')"
    by blast
  from find_min_least[OF D'(2) m v0 fmin] ub
  have "0 \<le> v" "v < 2 ^ 4" "\<forall>y. 0 \<le> y \<and> y < 2 ^ 4 \<and> sat_all 4 ?A y \<longrightarrow> v \<le> y"
    by simp_all
  moreover have "sat_all 4 ?A 0"
    using sat[of 0] by simp
  ultimately have "v = 0"
    by auto
  from find_max_greatest[OF D'(2) m v0 fmax] ub
  have "0 \<le> w" "w < 2 ^ 4" "sat_all 4 ?A w"
    "\<forall>y. 0 \<le> y \<and> y < 2 ^ 4 \<and> sat_all 4 ?A y \<longrightarrow> y \<le> w"
    by simp_all
  moreover have "sat_all 4 ?A 10"
    using sat[of 10] by simp
  ultimately have "w \<le> 10" "10 \<le> w"
    using sat[of w] by auto
  then have "w = 10"
    by simp
  with \<open>v = 0\<close> a c t fmin fmax show ?thesis
    by (intro exI[of _ ?ua] exI[of _ ub]) auto
qed

text \<open>
  Claim C2. The claim: for every width and every satisfiable constraint set, a
  successful \<^verbatim>\<open>find_min\<close> (resp. \<^verbatim>\<open>find_max\<close>) returns the least (resp. greatest) value
  of \<open>[0, 2^W)\<close> satisfying every assertion in force at entry. The search starts from
  the value of \<^verbatim>\<open>model()\<close>, which is the cached value when the cache frame on top is
  valid, and \<^verbatim>\<open>pop(0)\<close> leaves the parent's frame on top. At width 4: assert \<open>x \<le> 15\<close>,
  check, model (0 is cached), push, assert \<open>x \<ge> 5\<close>, \<^verbatim>\<open>pop(0)\<close>, check (sat, at level 1
  with both assertions in force), and then \<^verbatim>\<open>find_min\<close>: it starts from the stale 0,
  finds every bit already 0, runs no check and returns success with 0, which does not
  satisfy \<open>x \<ge> 5\<close>; the least satisfying value is 5. When the starting value satisfies
  the assertions in force, the result is the least (greatest) satisfying value
  (\<open>find_min_least\<close>, \<open>find_max_greatest\<close>), and the spec's scenario B gives 0 and 10
  (\<open>scenario_B_every_procedure\<close>).
\<close>

theorem find_min_stale_start:
  "do {
     u \<leftarrow> add_ule_const 15 False 1 (mk_univariate_bitblast_solver 4);
     (r0, u) \<leftarrow> Some (check brute_dp u);
     (m, u) \<leftarrow> model u;
     u \<leftarrow> push u;
     u \<leftarrow> add_uge_const 5 False 2 u;
     u \<leftarrow> pop 0 u;
     (r, u) \<leftarrow> Some (check brute_dp u);
     (ok, val, u') \<leftarrow> find_min brute_dp u;
     Some (r0, m, r, scope_level u, asserted (slv u), ok, val,
           sat_all 4 (asserted (slv u)) val, sat_all 4 (asserted (slv u)) 5)
   } = Some (l_true, 0, l_true, 1,
             [(Bv_ule (Bv_numeral 5) Bv_x, Numerical 2), (Bv_ule Bv_x (Bv_numeral 15), Numerical 1)],
             True, 0, False, True)"
  by code_simp

section \<open>The cache invariant\<close>

text \<open>
  Construction, \<^verbatim>\<open>add\<close>, \<^verbatim>\<open>push\<close>, \<^verbatim>\<open>pop(1)\<close> and \<^verbatim>\<open>check\<close> keep \<open>frames_ok\<close>, and
  so does \<^verbatim>\<open>model\<close> when the model of the decision procedure is current, as it is
  after a check.
\<close>

lemma frames_ok_top:
  "frames_ok u \<Longrightarrow> model_cache u \<noteq> [] \<and>
     (0 \<le> last (model_cache u) \<longrightarrow> sat_all (bit_width u) (asserted (slv u)) (last (model_cache u)))"
  by (cases "model_cache u" rule: rev_cases) (auto simp: frames_ok_def)

lemma frames_ok_mk: "frames_ok (mk_univariate_bitblast_solver W)"
  by (simp add: frames_ok_def mk_univariate_bitblast_solver_def)

lemma frames_ok_add: "frames_ok u \<Longrightarrow> add e sign dep u = Some u' \<Longrightarrow> frames_ok u'"
  by (cases "model_cache u" rule: rev_cases) (auto simp: frames_ok_def add_Some)

lemma frames_ok_push: "frames_ok u \<Longrightarrow> push u = Some u' \<Longrightarrow> frames_ok u'"
  by (cases "model_cache u" rule: rev_cases) (auto simp: frames_ok_def push_Some)

lemma frames_ok_pop_1: "frames_ok u \<Longrightarrow> pop 1 u = Some u' \<Longrightarrow> frames_ok u'"
  by (cases "model_cache u" rule: rev_cases; cases "checkpoints (slv u)")
     (auto simp: frames_ok_def pop_1_Some)

lemma frames_ok_check: "frames_ok u \<Longrightarrow> check D u = (r, u') \<Longrightarrow> frames_ok u'"
  by (auto simp: frames_ok_def check_eq)

lemma frames_ok_model:
  "frames_ok u \<Longrightarrow> model_current u \<Longrightarrow> model u = Some (v, u') \<Longrightarrow> frames_ok u'"
  by (cases "model_cache u" rule: rev_cases)
     (auto simp: frames_ok_def model_current_def model_def s_get_model_def
           split: if_splits option.splits)

lemma model_current_check:
  "sound_dp D (bit_width u) \<Longrightarrow> check D u = (r, u') \<Longrightarrow> model_current u'"
  by (auto simp: model_current_def check_eq dest: sound_dp_sat split: if_splits)

text \<open>
  Claim C4. The claim: after every sequence of operations, a valid cached value satisfies
  every assertion in force. At width 4: check, model (0 is cached), push, assert
  \<open>x \<ge> 5\<close> (this resets the new frame), and then \<^verbatim>\<open>pop(0)\<close>, which discards that frame
  and leaves the scope: at level 1 the assertion \<open>x \<ge> 5\<close> is in force and the cached
  value on top is the valid value 0, which does not satisfy it. The lemmas above show
  that every other operation keeps the invariant, \<^verbatim>\<open>pop(1)\<close> included.
\<close>

theorem pop_zero_leaves_stale_cache:
  "do {
     (m, u) \<leftarrow> model (snd (check brute_dp (mk_univariate_bitblast_solver 4)));
     u \<leftarrow> push u;
     u \<leftarrow> add_uge_const 5 False 1 u;
     u \<leftarrow> pop 0 u;
     Some (scope_level u, model_cache u, asserted (slv u),
           sat_all 4 (asserted (slv u)) (last (model_cache u)))
   } = Some (1, [0], [(Bv_ule (Bv_numeral 5) Bv_x, Numerical 1)], False)"
  by code_simp

section \<open>The unsatisfiable core\<close>

lemma those_get_num: "those (map get_num xs) = Some ds \<Longrightarrow> xs = map Numerical ds"
proof (induction xs arbitrary: ds)
  case Nil
  then show ?case by simp
next
  case (Cons x xs)
  then show ?case
    by (cases x) (auto split: option.splits)
qed

text \<open>
  Claim C7. After a check that reported unsat, with a sound decision procedure: when
  \<^verbatim>\<open>unsat_core\<close> returns, the ids it returns are not empty, each is the number of the
  label of an assertion in force, and the assertions so labelled have no common
  solution in \<open>[0, 2^W)\<close>. The label of an assertion is the numerical symbol of the
  dependency id \<^verbatim>\<open>add\<close> was called with. And for every solver: when the core of the
  decision procedure is empty, \<^verbatim>\<open>unsat_core\<close> does not return (the \<^verbatim>\<open>SASSERT\<close> fails).
\<close>

theorem unsat_core_labels_in_force:
  "(sound_dp D (bit_width u0) \<and> check D u0 = (l_false, u) \<and> unsat_core u = Some deps \<longrightarrow>
      deps \<noteq> [] \<and>
      Numerical ` set deps \<subseteq> snd ` set (asserted (slv u)) \<and>
      \<not> (\<exists>y. 0 \<le> y \<and> y < 2 ^ bit_width u \<and>
             sat_all (bit_width u) (labelled (map Numerical deps) (asserted (slv u))) y)) \<and>
   (add e sign dep w = Some w' \<longrightarrow>
      asserted (slv w') = (if sign then Mk_not e else e, Numerical dep) # asserted (slv w)) \<and>
   (s_get_unsat_core (slv u') = [] \<longrightarrow> unsat_core u' = None)"
proof (intro conjI impI; (elim conjE)?)
  show "unsat_core u' = None" if "s_get_unsat_core (slv u') = []"
    using that by (simp add: unsat_core_def)
next
  show "asserted (slv w') = (if sign then Mk_not e else e, Numerical dep) # asserted (slv w)"
    if "add e sign dep w = Some w'"
    using that by (auto simp: add_Some)
next
  let ?W = "bit_width u0" and ?A = "asserted (slv u0)"
  assume D: "sound_dp D ?W" and c: "check D u0 = (l_false, u)"
    and k: "unsat_core u = Some deps"
  from c have v: "verdict D ?W ?A = l_false"
    and u: "bit_width u = ?W" "asserted (slv u) = ?A" "last_core (slv u) = pick_core D ?W ?A"
    by (auto simp: check_eq)
  from k have t: "those (map get_num (last_core (slv u))) = Some deps" and ne: "deps \<noteq> []"
    by (auto simp: unsat_core_def s_get_unsat_core_def split: Option.bind_splits if_splits)
  from those_get_num[OF t] u have core: "pick_core D ?W ?A = map Numerical deps"
    by simp
  from D v have "set (pick_core D ?W ?A) \<subseteq> snd ` set ?A"
    and "\<not> list_ex (sat_all ?W (labelled (pick_core D ?W ?A) ?A)) (candidates ?W)"
    by (simp_all add: sound_dp_def)
  with core u ne show "deps \<noteq> []"
    "Numerical ` set deps \<subseteq> snd ` set (asserted (slv u))"
    "\<not> (\<exists>y. 0 \<le> y \<and> y < 2 ^ bit_width u \<and>
           sat_all (bit_width u) (labelled (map Numerical deps) (asserted (slv u))) y)"
    by (auto simp: list_ex_iff set_candidates)
qed

theorem unsat_core_labels_in_force_witness:
  "sound_dp brute_dp 8 \<and>
   (\<exists>ua ub uc.
      add_ule_const 200 False 1 (mk_univariate_bitblast_solver 8) = Some ua \<and>
      add (Bv_ule (Bv_numeral 210) Bv_x) False 2 ua = Some ub \<and>
      asserted (slv ub) = (Bv_ule (Bv_numeral 210) Bv_x, Numerical 2) # asserted (slv ua) \<and>
      check brute_dp ub = (l_false, uc) \<and>
      unsat_core uc = Some [2, 1] \<and>
      Numerical ` set [2, 1] \<subseteq> snd ` set (asserted (slv uc)) \<and>
      \<not> (\<exists>y. 0 \<le> y \<and> y < 2 ^ 8 \<and>
             sat_all 8 (labelled (map Numerical [2, 1]) (asserted (slv uc))) y) \<and>
      check (brute_dp\<lparr>pick_core := \<lambda>W as. []\<rparr>) ub = (l_false, ub) \<and>
      s_get_unsat_core (slv ub) = [] \<and> unsat_core ub = None)"
proof -
  let ?A = "[(Bv_ule Bv_x (Bv_numeral 200), Numerical 1)]"
  let ?B = "(Bv_ule (Bv_numeral 210) Bv_x, Numerical 2) # ?A"
  let ?ua = "\<lparr>slv = \<lparr>asserted = ?A, checkpoints = [], last_model = None, last_core = []\<rparr>,
              bit_width = 8, m_scope_level = 0, model_cache = [- 1]\<rparr>"
  let ?ub = "\<lparr>slv = \<lparr>asserted = ?B, checkpoints = [], last_model = None, last_core = []\<rparr>,
              bit_width = 8, m_scope_level = 0, model_cache = [- 1]\<rparr>"
  let ?uc = "\<lparr>slv = \<lparr>asserted = ?B, checkpoints = [], last_model = None,
                    last_core = [Numerical 2, Numerical 1]\<rparr>,
             bit_width = 8, m_scope_level = 0, model_cache = [- 1]\<rparr>"
  have a: "add_ule_const 200 False 1 (mk_univariate_bitblast_solver 8) = Some ?ua"
    by code_simp
  have b: "add (Bv_ule (Bv_numeral 210) Bv_x) False 2 ?ua = Some ?ub"
    by code_simp
  have D: "sound_dp brute_dp (bit_width ?ub)"
    by (rule sound_brute_dp)
  have c: "check brute_dp ?ub = (l_false, ?uc)"
    by code_simp
  have k: "unsat_core ?uc = Some [2, 1]"
    by code_simp
  have c': "check (brute_dp\<lparr>pick_core := \<lambda>W as. []\<rparr>) ?ub = (l_false, ?ub)"
    by code_simp
  have e: "s_get_unsat_core (slv ?ub) = []"
    by (simp add: s_get_unsat_core_def)
  from unsat_core_labels_in_force
         [of brute_dp ?ub ?uc "[2, 1]" "Bv_ule (Bv_numeral 210) Bv_x" False 2 ?ua ?ub ?ub]
       D b c k e
  have "Numerical ` set [2, 1] \<subseteq> snd ` set (asserted (slv ?uc))"
    and "\<not> (\<exists>y. 0 \<le> y \<and> y < 2 ^ 8 \<and>
             sat_all 8 (labelled (map Numerical [2, 1]) (asserted (slv ?uc))) y)"
    and "asserted (slv ?ub) = (Bv_ule (Bv_numeral 210) Bv_x, Numerical 2) # asserted (slv ?ua)"
    and "unsat_core ?ub = None"
    by simp_all
  then show ?thesis
    using a b c k c' e sound_brute_dp[of 8]
    by (intro conjI exI[of _ ?ua] exI[of _ ?ub] exI[of _ ?uc]) simp_all
qed

end
